theory Spec2Isabelle
  imports Main "HOL-Library.Word" "HOL-Library.Sublist"
begin

section \<open>Strings\<close>

text \<open>
  A JavaScript string is a sequence of UTF-16 code units; \<open>length\<close>, indexing, \<open>slice\<close>
  and a regular expression without the \<open>u\<close> flag all count code units.  \<open>js\<close> turns an
  Isabelle literal into such a string.
\<close>

type_synonym codeunit = "16 word"
type_synonym jsstring = "codeunit list"

definition js :: "string \<Rightarrow> jsstring" where
  "js cs = map of_char cs"

text \<open>The \<open>LineTerminator\<close> and \<open>WhiteSpace\<close> productions of ECMAScript.\<close>

definition isLineTerminator :: "codeunit \<Rightarrow> bool" where
  "isLineTerminator c \<longleftrightarrow> c = 0x000A \<or> c = 0x000D \<or> c = 0x2028 \<or> c = 0x2029"

definition isWhiteSpace :: "codeunit \<Rightarrow> bool" where
  "isWhiteSpace c \<longleftrightarrow>
     c = 0x0009 \<or> c = 0x000B \<or> c = 0x000C \<or> c = 0x0020 \<or> c = 0x00A0 \<or> c = 0xFEFF \<or>
     c = 0x1680 \<or> (0x2000 \<le> c \<and> c \<le> 0x200A) \<or> c = 0x202F \<or> c = 0x205F \<or> c = 0x3000"

text \<open>What \<open>\s\<close> matches and what \<open>String.prototype.trim\<close> strips: both sets together.\<close>

definition isSpace :: "codeunit \<Rightarrow> bool" where
  "isSpace c \<longleftrightarrow> isWhiteSpace c \<or> isLineTerminator c"

definition trim :: "jsstring \<Rightarrow> jsstring" where
  "trim s = rev (dropWhile isSpace (rev (dropWhile isSpace s)))"

definition substring :: "jsstring \<Rightarrow> nat \<Rightarrow> nat \<Rightarrow> jsstring" where
  "substring s i j = take (j - i) (drop i s)"

section \<open>Regular expressions\<close>

text \<open>
  The fragment of ECMAScript patterns that the three literals of \<open>getCodeBlocks.ts\<close> use:
  the empty pattern, a literal character, \<open>\s\<close>, \<open>.\<close>, the assertions \<open>^\<close> and \<open>$\<close> (no \<open>m\<close> flag),
  concatenation, the greedy \<open>*\<close>, the lazy \<open>*?\<close>, the greedy \<open>{0,1}\<close> and a numbered
  capturing group.  \<open>r+\<close> is \<open>r\<close> followed by \<open>r*\<close> and \<open>r+?\<close> is \<open>r\<close> followed by \<open>r*?\<close>.
\<close>

datatype atom = Chr codeunit | Space | AnyChar

fun atom_ok :: "atom \<Rightarrow> codeunit \<Rightarrow> bool" where
  "atom_ok (Chr d) c \<longleftrightarrow> c = d"
| "atom_ok Space c \<longleftrightarrow> isSpace c"
| "atom_ok AnyChar c \<longleftrightarrow> \<not> isLineTerminator c"

datatype rx =
    Eps
  | Atom atom
  | Bol
  | Eol
  | Cat rx rx
  | StarG rx
  | StarL rx
  | OptG rx
  | Grp nat rx

text \<open>A capture is the pair of indices where its group began and ended; \<open>None\<close> is \<open>undefined\<close>.\<close>

type_synonym caps = "nat \<Rightarrow> (nat \<times> nat) option"

fun groups :: "rx \<Rightarrow> nat list" where
  "groups Eps = []"
| "groups (Atom a) = []"
| "groups Bol = []"
| "groups Eol = []"
| "groups (Cat a b) = groups a @ groups b"
| "groups (StarG r) = groups r"
| "groups (StarL r) = groups r"
| "groups (OptG r) = groups r"
| "groups (Grp n r) = n # groups r"

text \<open>A quantifier clears the captures of its own groups before every iteration.\<close>

definition reset :: "rx \<Rightarrow> caps \<Rightarrow> caps" where
  "reset r cs = (\<lambda>n. if n \<in> set (groups r) then None else cs n)"

text \<open>
  The backtracking matcher.  \<open>m r s (i, cs)\<close> lists, in the order in which a backtracking
  engine tries them, the states (end index, captures) in which \<open>r\<close> can finish when it starts
  at index \<open>i\<close> of \<open>s\<close> with captures \<open>cs\<close>; the continuation takes the first state it can
  complete.  An iteration of a quantifier that consumes nothing is rejected, as the
  \<open>RepeatMatcher\<close> of the language definition does.
\<close>

function m :: "rx \<Rightarrow> jsstring \<Rightarrow> nat \<times> caps \<Rightarrow> (nat \<times> caps) list" where
  "m Eps s (i, cs) = [(i, cs)]"
| "m (Atom a) s (i, cs) = (if i < length s \<and> atom_ok a (s ! i) then [(Suc i, cs)] else [])"
| "m Bol s (i, cs) = (if i = 0 then [(i, cs)] else [])"
| "m Eol s (i, cs) = (if i = length s then [(i, cs)] else [])"
| "m (Cat a b) s st = concat (map (m b s) (m a s st))"
| "m (StarG r) s (i, cs) =
     concat (map (\<lambda>st'. if i < fst st' \<and> fst st' \<le> length s then m (StarG r) s st' else [])
                 (m r s (i, reset r cs)))
     @ [(i, cs)]"
| "m (StarL r) s (i, cs) =
     (i, cs) #
     concat (map (\<lambda>st'. if i < fst st' \<and> fst st' \<le> length s then m (StarL r) s st' else [])
                 (m r s (i, reset r cs)))"
| "m (OptG r) s (i, cs) = filter (\<lambda>st'. i < fst st') (m r s (i, reset r cs)) @ [(i, cs)]"
| "m (Grp n r) s (i, cs) = map (\<lambda>(j, cs'). (j, cs'(n \<mapsto> (i, j)))) (m r s (i, cs))"
  by pat_completeness auto
termination
  by (relation "inv_image (measure size <*lex*> measure id) (\<lambda>(r, s, st). (r, length s - fst st))")
     auto

text \<open>
  \<open>String.prototype.match\<close> with a pattern without the \<open>g\<close> flag: the start index runs
  from 0 to the length of the string, and the first index at which the pattern matches
  gives the result array: the matched text, then one entry per group.
\<close>

fun search :: "rx \<Rightarrow> jsstring \<Rightarrow> nat list \<Rightarrow> (nat \<times> nat \<times> caps) option" where
  "search r s [] = None"
| "search r s (i # is) =
     (case m r s (i, (\<lambda>n. None)) of
        [] \<Rightarrow> search r s is
      | (j, cs) # _ \<Rightarrow> Some (i, j, cs))"

definition match :: "rx \<Rightarrow> nat \<Rightarrow> jsstring \<Rightarrow> jsstring option list option" where
  "match r n s =
     (case search r s [0 ..< Suc (length s)] of
        None \<Rightarrow> None
      | Some (i, j, cs) \<Rightarrow>
          Some (Some (substring s i j) #
                map (\<lambda>k. case cs k of None \<Rightarrow> None | Some (a, b) \<Rightarrow> Some (substring s a b))
                    [1 ..< Suc n]))"

fun seq :: "rx list \<Rightarrow> rx" where
  "seq [] = Eps"
| "seq [r] = r"
| "seq (r # rs) = Cat r (seq rs)"

definition chars :: "string \<Rightarrow> rx list" where
  "chars cs = map (\<lambda>c. Atom (Chr (of_char c))) cs"

definition PlusG :: "rx \<Rightarrow> rx" where
  "PlusG r = Cat r (StarG r)"

definition PlusL :: "rx \<Rightarrow> rx" where
  "PlusL r = Cat r (StarL r)"

text \<open>\<^verbatim>\<open>/^(\s*)code:(.+?)(\(.+\)){0,1}\s*$/\<close>\<close>

definition rx_title :: rx where
  "rx_title =
     seq ([Bol, Grp 1 (StarG (Atom Space))] @ chars ''code:'' @
          [Grp 2 (PlusL (Atom AnyChar)),
           OptG (Grp 3 (seq (chars ''('' @ [PlusG (Atom AnyChar)] @ chars '')''))),
           StarG (Atom Space), Eol])"

text \<open>\<^verbatim>\<open>/.+\.(.*)$/\<close>\<close>

definition rx_ext :: rx where
  "rx_ext = seq ([PlusG (Atom AnyChar)] @ chars ''.'' @ [Grp 1 (StarG (Atom AnyChar)), Eol])"

text \<open>\<^verbatim>\<open>/^(\s*)(.*)$/\<close>\<close>

definition rx_body :: rx where
  "rx_body = seq [Bol, Grp 1 (StarG (Atom Space)), Grp 2 (StarG (Atom AnyChar)), Eol]"

section \<open>Data model\<close>

text \<open>
  Modelled from the spec: the type \<open>Line\<close> is declared in \<open>deps/scrapbox-rest.ts\<close>, which
  is not among the sources.  The spec says that a line exposes at least an identifier and
  its raw text; every function below is written over the extensible record, so whatever
  else a line carries is kept and never read.
\<close>

record Line =
  line_id :: jsstring
  line_text :: jsstring

text \<open>
  \<open>TinyCodeBlock\<close>; \<open>nextLine\<close> is \<open>Line | null\<close>.  \<open>CodeTitle\<close> and
  \<open>GetCodeBlocksFilter\<close> have fields of the same names, which are prefixed there.
\<close>

record 'l TinyCodeBlock =
  filename :: jsstring
  lang :: jsstring
  titleLine :: 'l
  bodyLines :: "'l list"
  nextLine :: "'l option"

text \<open>\<open>GetCodeBlocksFilter\<close>: both fields are optional, and so is the filter itself.\<close>

record GetCodeBlocksFilter =
  filter_filename :: "jsstring option"
  filter_lang :: "jsstring option"

record CodeTitle =
  fileName :: jsstring
  title_lang :: jsstring
  indent :: nat

text \<open>The type of \<open>currentCode\<close>: \<open>CodeTitle & { isCodeBlock; isCollect }\<close>.\<close>

record CurrentCode = CodeTitle +
  isCodeBlock :: bool
  isCollect :: bool

text \<open>
  \<open>TypeError\<close> is what reading a property of \<open>undefined\<close> throws (\<open>matched[1].length\<close> on
  a group that did not take part in the match, \<open>codeBlocks[-1].nextLine\<close> on an empty array).
  \<open>PullFailed\<close> stands for the rejection of the promise returned by \<open>pull\<close>.
\<close>

datatype error = TypeError | PullFailed

definition bindE :: "error + 'a \<Rightarrow> ('a \<Rightarrow> error + 'b) \<Rightarrow> error + 'b" where
  "bindE x f = (case x of Inl e \<Rightarrow> Inl e | Inr v \<Rightarrow> f v)"

text \<open>
  \<open>matched[k]\<close>, used as a string.  An entry that is \<open>undefined\<close> where the code takes its
  \<open>length\<close> or trims it throws; \<open>ext[1]\<close> would be carried on as a language that is not a
  string, which is a failure here as well.
\<close>

definition group :: "jsstring option list \<Rightarrow> nat \<Rightarrow> error + jsstring" where
  "group matched k =
     (if k < length matched then (case matched ! k of None \<Rightarrow> Inl TypeError | Some g \<Rightarrow> Inr g)
      else Inl TypeError)"

text \<open>\<open>matched[k] === undefined\<close>\<close>

definition is_undefined :: "jsstring option list \<Rightarrow> nat \<Rightarrow> bool" where
  "is_undefined matched k \<longleftrightarrow> length matched \<le> k \<or> matched ! k = None"

section \<open>The helpers\<close>

text \<open>
  \<open>result\<close> is the \<open>return\<close> statement at the end of the function, reached with the
  language that one of the three branches has assigned.
\<close>

definition extractFromCodeTitle :: "jsstring \<Rightarrow> error + CodeTitle option" where
  "extractFromCodeTitle lineText =
     (case match rx_title 3 lineText of
        None \<Rightarrow> Inr None
      | Some matched \<Rightarrow>
          bindE (group matched 2) (\<lambda>g2.
          let fileName' = trim g2;
              result = (\<lambda>lang'.
                bindE (group matched 1) (\<lambda>g1.
                Inr (Some \<lparr>fileName = fileName', title_lang = lang', indent = length g1\<rparr>)))
          in if is_undefined matched 3 then
               (case match rx_ext 1 fileName' of
                  None \<Rightarrow> result fileName'
                | Some ext \<Rightarrow>
                    bindE (group ext 1) (\<lambda>e1. if e1 = [] then Inr None else result e1))
             else bindE (group matched 3) result))"

text \<open>
  \<open>filter?.filename && filter.filename !== codeTitle.fileName\<close>: an absent filter, an absent
  field and the empty string are all falsy.
\<close>

definition isMatchFilter :: "CodeTitle \<Rightarrow> GetCodeBlocksFilter option \<Rightarrow> bool" where
  "isMatchFilter codeTitle filter' =
     (case filter' of
        None \<Rightarrow> True
      | Some f \<Rightarrow>
          (if (case filter_filename f of None \<Rightarrow> False | Some n \<Rightarrow> n \<noteq> [] \<and> n \<noteq> fileName codeTitle)
           then False
           else if (case filter_lang f of None \<Rightarrow> False | Some l \<Rightarrow> l \<noteq> [] \<and> l \<noteq> title_lang codeTitle)
           then False
           else True))"

text \<open>
  \<open>indent.slice(indent.length - titleIndent)\<close> is reached only when
  \<open>indent.length > titleIndent\<close>, so the start index is positive and \<open>slice\<close> drops that many
  code units.
\<close>

definition extractFromCodeBody :: "jsstring \<Rightarrow> nat \<Rightarrow> error + jsstring option" where
  "extractFromCodeBody lineText titleIndent =
     (case match rx_body 2 lineText of
        None \<Rightarrow> Inr None
      | Some matched \<Rightarrow>
          if length matched < 2 then Inr None
          else
            bindE (group matched 1) (\<lambda>indent.
            bindE (group matched 2) (\<lambda>body.
            if length indent \<le> titleIndent then Inr None
            else Inr (Some (drop (length indent - titleIndent) indent @ body)))))"

section \<open>getCodeBlocks\<close>

text \<open>
  Modelled from the spec: \<open>pull\<close> lives in \<open>./pull.ts\<close>, which is not among the sources;
  it is a parameter here.  It fetches the page \<open>title\<close> of \<open>project\<close>, and \<open>getLines\<close>
  takes the field \<open>lines\<close> of what it returns; a failure of the fetch is \<open>Inl\<close>.
\<close>

datatype 'l target = Page jsstring jsstring | Lines "'l list"

definition getLines :: "(jsstring \<Rightarrow> jsstring \<Rightarrow> error + 'l list) \<Rightarrow> 'l target \<Rightarrow> error + 'l list" where
  "getLines pull target =
     (case target of Lines ls \<Rightarrow> Inr ls | Page project title \<Rightarrow> pull project title)"

text \<open>
  \<open>codeBlocks[codeBlocks.length - 1].f = ...\<close>: the last block of the array is updated in
  place; on an empty array the element is \<open>undefined\<close> and the access throws.
\<close>

definition update_last :: "('a \<Rightarrow> 'a) \<Rightarrow> 'a list \<Rightarrow> error + 'a list" where
  "update_last f xs = (if xs = [] then Inl TypeError else Inr (butlast xs @ [f (last xs)]))"

definition initialCode :: CurrentCode where
  "initialCode = \<lparr>fileName = [], title_lang = [], indent = 0, isCodeBlock = False, isCollect = False\<rparr>"

text \<open>One iteration of the \<open>for\<close> loop, on the state (\<open>currentCode\<close>, \<open>codeBlocks\<close>).\<close>

definition step ::
  "GetCodeBlocksFilter option \<Rightarrow> 'a Line_scheme \<Rightarrow>
   CurrentCode \<times> 'a Line_scheme TinyCodeBlock list \<Rightarrow>
   error + CurrentCode \<times> 'a Line_scheme TinyCodeBlock list" where
  "step filter' line st =
     (let currentCode = fst st; codeBlocks = snd st in
      if isCodeBlock currentCode then
        bindE (extractFromCodeBody (line_text line) (indent currentCode)) (\<lambda>body.
        case body of
          None \<Rightarrow>
            bindE (if isCollect currentCode
                   then update_last (\<lambda>b. b\<lparr>nextLine := Some line\<rparr>) codeBlocks
                   else Inr codeBlocks) (\<lambda>codeBlocks'.
            Inr (currentCode\<lparr>isCodeBlock := False\<rparr>, codeBlocks'))
        | Some _ \<Rightarrow>
            if \<not> isCollect currentCode then Inr (currentCode, codeBlocks)
            else
              bindE (update_last (\<lambda>b. b\<lparr>bodyLines := bodyLines b @ [line]\<rparr>) codeBlocks)
                (\<lambda>codeBlocks'. Inr (currentCode, codeBlocks')))
      else
        bindE (extractFromCodeTitle (line_text line)) (\<lambda>matched.
        case matched of
          None \<Rightarrow> Inr (currentCode\<lparr>isCodeBlock := False\<rparr>, codeBlocks)
        | Some matched \<Rightarrow>
            let isCollect' = isMatchFilter matched filter';
                currentCode' = CodeTitle.extend matched
                  (CurrentCode.fields True isCollect')
            in if \<not> isCollect currentCode' then Inr (currentCode', codeBlocks)
               else Inr (currentCode',
                         codeBlocks @
                         [\<lparr>filename = fileName currentCode', lang = title_lang currentCode',
                           titleLine = line, bodyLines = [], nextLine = None\<rparr>])))"

fun loop ::
  "GetCodeBlocksFilter option \<Rightarrow> 'a Line_scheme list \<Rightarrow>
   CurrentCode \<times> 'a Line_scheme TinyCodeBlock list \<Rightarrow>
   error + CurrentCode \<times> 'a Line_scheme TinyCodeBlock list" where
  "loop filter' [] st = Inr st"
| "loop filter' (line # lines) st = bindE (step filter' line st) (loop filter' lines)"

definition getCodeBlocks ::
  "(jsstring \<Rightarrow> jsstring \<Rightarrow> error + 'a Line_scheme list) \<Rightarrow> 'a Line_scheme target \<Rightarrow>
   GetCodeBlocksFilter option \<Rightarrow> error + 'a Line_scheme TinyCodeBlock list" where
  "getCodeBlocks pull target filter' =
     bindE (getLines pull target) (\<lambda>lines.
     bindE (loop filter' lines (initialCode, [])) (\<lambda>st. Inr (snd st)))"

section \<open>Notions used in the statements and proofs\<close>

text \<open>
  \<open>run a s i\<close> is the number of characters from index \<open>i\<close> of \<open>s\<close> on that the atom
  \<open>a\<close> accepts one after the other: how far \<open>a*\<close> can go.
\<close>
definition run :: "atom \<Rightarrow> jsstring \<Rightarrow> nat \<Rightarrow> nat" where
  "run a s i = length (takeWhile (atom_ok a) (drop i s))"

text \<open>What follows the last dot of a file name (the whole name if it has no dot).\<close>
definition extension :: "jsstring \<Rightarrow> jsstring" where
  "extension fn = rev (takeWhile (\<lambda>c. c \<noteq> of_char CHR ''.'') (rev fn))"

text \<open>The length of the leading whitespace of a text: what group 1 of both line patterns counts.\<close>
definition indentation :: "jsstring \<Rightarrow> nat" where
  "indentation s = length (takeWhile isSpace s)"

text \<open>
  The invariant of the loop speaks of the lines read so far, \<open>ls\<close>.  A block is well formed
  when its title line parses to its file name and language and each of its body lines
  passes the body test at the indentation of the title.  A closed block lies in \<open>ls\<close> as
  title, body and the line that ended it, which is its \<open>nextLine\<close>; the open block is the end
  of \<open>ls\<close>, and has no \<open>nextLine\<close> yet.
\<close>
definition wf_block :: "'a Line_scheme TinyCodeBlock \<Rightarrow> bool" where
  "wf_block b \<longleftrightarrow>
     extractFromCodeTitle (line_text (titleLine b)) =
       Inr (Some \<lparr>fileName = filename b, title_lang = lang b,
                  indent = indentation (line_text (titleLine b))\<rparr>) \<and>
     list_all (\<lambda>l. extractFromCodeBody (line_text l) (indentation (line_text (titleLine b))) \<noteq> Inr None)
       (bodyLines b)"

definition closed_in :: "'a Line_scheme list \<Rightarrow> 'a Line_scheme TinyCodeBlock \<Rightarrow> bool" where
  "closed_in ls b \<longleftrightarrow>
     wf_block b \<and>
     (\<exists>pre l rest. ls = pre @ titleLine b # bodyLines b @ l # rest \<and> nextLine b = Some l \<and>
        extractFromCodeBody (line_text l) (indentation (line_text (titleLine b))) = Inr None)"

definition open_in :: "'a Line_scheme list \<Rightarrow> 'a Line_scheme TinyCodeBlock \<Rightarrow> bool" where
  "open_in ls b \<longleftrightarrow>
     wf_block b \<and> (\<exists>pre. ls = pre @ titleLine b # bodyLines b) \<and> nextLine b = None"

definition inv :: "'a Line_scheme list \<Rightarrow> CurrentCode \<times> 'a Line_scheme TinyCodeBlock list \<Rightarrow> bool" where
  "inv ls st \<longleftrightarrow>
     (let currentCode = fst st; codeBlocks = snd st in
      if isCodeBlock currentCode \<and> isCollect currentCode
      then codeBlocks \<noteq> [] \<and> list_all (closed_in ls) (butlast codeBlocks) \<and>
           open_in ls (last codeBlocks) \<and>
           fileName currentCode = filename (last codeBlocks) \<and>
           title_lang currentCode = lang (last codeBlocks) \<and>
           indent currentCode = indentation (line_text (titleLine (last codeBlocks)))
      else list_all (closed_in ls) codeBlocks)"

text \<open>
  The title data that a block keeps.  \<open>isMatchFilter\<close> reads the file name and the language
  only, so the indentation does not matter here.
\<close>
definition blockTitle :: "'l TinyCodeBlock \<Rightarrow> CodeTitle" where
  "blockTitle b = \<lparr>fileName = filename b, title_lang = lang b, indent = 0\<rparr>"

text \<open>
  The filter as the spec words it, to be compared with \<open>isMatchFilter\<close>: an exact-match
  predicate; both conditions, when present, must match, and the absence of a condition (or
  of the filter) imposes no constraint.  \<open>no_empty_field\<close> says that no field of the filter
  is present and the empty string.
\<close>
definition spec_filter_matches :: "GetCodeBlocksFilter option \<Rightarrow> 'l TinyCodeBlock \<Rightarrow> bool" where
  "spec_filter_matches filter' b =
     (case filter' of
        None \<Rightarrow> True
      | Some f \<Rightarrow>
          (case filter_filename f of None \<Rightarrow> True | Some n \<Rightarrow> n = filename b) \<and>
          (case filter_lang f of None \<Rightarrow> True | Some l \<Rightarrow> l = lang b))"

definition no_empty_field :: "GetCodeBlocksFilter option \<Rightarrow> bool" where
  "no_empty_field filter' =
     (case filter' of
        None \<Rightarrow> True
      | Some f \<Rightarrow> filter_filename f \<noteq> Some [] \<and> filter_lang f \<noteq> Some [])"

text \<open>
  The relation between the state of a run without a filter, \<open>stU\<close>, and the state of a run
  with the filter \<open>f\<close> on the same lines, \<open>stF\<close>.
\<close>
definition sim ::
  "GetCodeBlocksFilter option \<Rightarrow> CurrentCode \<times> 'a Line_scheme TinyCodeBlock list \<Rightarrow>
   CurrentCode \<times> 'a Line_scheme TinyCodeBlock list \<Rightarrow> bool" where
  "sim f stU stF \<longleftrightarrow>
     isCodeBlock (fst stF) = isCodeBlock (fst stU) \<and>
     indent (fst stF) = indent (fst stU) \<and>
     snd stF = filter (\<lambda>b. isMatchFilter (blockTitle b) f) (snd stU) \<and>
     (isCodeBlock (fst stU) \<longrightarrow>
        isCollect (fst stU) \<and> snd stU \<noteq> [] \<and>
        isCollect (fst stF) = isMatchFilter (blockTitle (last (snd stU))) f)"

text \<open>Concrete lines and blocks for the scenarios; \<open>no_pull\<close> is a line source that always fails.\<close>
definition mkLine :: "string \<Rightarrow> string \<Rightarrow> Line" where
  "mkLine i t = \<lparr>line_id = js i, line_text = js t\<rparr>"

definition no_pull :: "jsstring \<Rightarrow> jsstring \<Rightarrow> error + Line list" where
  "no_pull project title = Inl PullFailed"

definition scenario1 :: "Line list" where
  "scenario1 = [mkLine ''1'' ''code:a.txt'', mkLine ''2'' ''  hello'', mkLine ''3'' ''  world'',
                mkLine ''4'' ''done'']"

definition block1 :: "Line TinyCodeBlock" where
  "block1 = \<lparr>filename = js ''a.txt'', lang = js ''txt'', titleLine = mkLine ''1'' ''code:a.txt'',
             bodyLines = [mkLine ''2'' ''  hello'', mkLine ''3'' ''  world''],
             nextLine = Some (mkLine ''4'' ''done'')\<rparr>"

definition scenario2 :: "Line list" where
  "scenario2 = [mkLine ''1'' ''  code:b(js)'', mkLine ''2'' ''    x=1'', mkLine ''3'' ''  y'']"

definition scenario4 :: "Line list" where
  "scenario4 = [mkLine ''1'' ''code:d.py'', mkLine ''2'' ''code:e.py'', mkLine ''3'' ''  z'']"

definition py_filter :: GetCodeBlocksFilter where
  "py_filter = \<lparr>filter_filename = None, filter_lang = Some (js ''py'')\<rparr>"

definition scenario7 :: "Line list" where
  "scenario7 = [mkLine ''1'' ''code:a.txt'', mkLine ''2'' '' x'', mkLine ''3'' ''end'',
                mkLine ''4'' ''code:b.py'', mkLine ''5'' '' y'']"

definition block7a :: "Line TinyCodeBlock" where
  "block7a = \<lparr>filename = js ''a.txt'', lang = js ''txt'', titleLine = mkLine ''1'' ''code:a.txt'',
              bodyLines = [mkLine ''2'' '' x''], nextLine = Some (mkLine ''3'' ''end'')\<rparr>"

definition block7b :: "Line TinyCodeBlock" where
  "block7b = \<lparr>filename = js ''b.py'', lang = js ''py'', titleLine = mkLine ''4'' ''code:b.py'',
              bodyLines = [mkLine ''5'' '' y''], nextLine = None\<rparr>"

definition rb_filter :: GetCodeBlocksFilter where
  "rb_filter = \<lparr>filter_filename = None, filter_lang = Some (js ''rb'')\<rparr>"

definition plain_lines :: "Line list" where
  "plain_lines = [mkLine ''1'' ''hello'', mkLine ''2'' ''code:c.'', mkLine ''3'' ''text'']"

definition scenario3 :: "Line list" where
  "scenario3 = [mkLine ''1'' ''code:c.'', mkLine ''2'' ''text'']"

definition d_code :: CurrentCode where
  "d_code = \<lparr>fileName = js ''d.py'', title_lang = js ''py'', indent = 0,
              isCodeBlock = True, isCollect = True\<rparr>"

definition d_block :: "Line TinyCodeBlock" where
  "d_block = \<lparr>filename = js ''d.py'', lang = js ''py'', titleLine = mkLine ''1'' ''code:d.py'',
              bodyLines = [], nextLine = None\<rparr>"

definition empty_filter :: GetCodeBlocksFilter where
  "empty_filter = \<lparr>filter_filename = Some (js []), filter_lang = Some (js [])\<rparr>"

definition empty_name_filter :: GetCodeBlocksFilter where
  "empty_name_filter = \<lparr>filter_filename = Some (js []), filter_lang = None\<rparr>"

definition empty_name_lines :: "Line list" where
  "empty_name_lines = [mkLine ''1'' ''code: '', mkLine ''2'' ''x'', mkLine ''3'' ''code:a.txt'']"

definition empty_name_block :: "Line TinyCodeBlock" where
  "empty_name_block = \<lparr>filename = js [], lang = js [], titleLine = mkLine ''1'' ''code: '',
                       bodyLines = [], nextLine = Some (mkLine ''2'' ''x'')\<rparr>"

definition a_txt_block :: "Line TinyCodeBlock" where
  "a_txt_block = \<lparr>filename = js ''a.txt'', lang = js ''txt'', titleLine = mkLine ''3'' ''code:a.txt'',
                  bodyLines = [], nextLine = None\<rparr>"

definition a_only_block :: "Line TinyCodeBlock" where
  "a_only_block = \<lparr>filename = js ''a.txt'', lang = js ''txt'', titleLine = mkLine ''1'' ''code:a.txt'',
                   bodyLines = [], nextLine = None\<rparr>"

definition open_code :: CurrentCode where
  "open_code = \<lparr>fileName = js ''a.txt'', title_lang = js ''txt'', indent = 0,
                 isCodeBlock = True, isCollect = True\<rparr>"

definition open_block :: "Line TinyCodeBlock" where
  "open_block = \<lparr>filename = js ''a.txt'', lang = js ''txt'', titleLine = mkLine ''1'' ''code:a.txt'',
                 bodyLines = [mkLine ''2'' ''  hello''], nextLine = None\<rparr>"

section \<open>The matcher on the three patterns\<close>

subsection \<open>A quantifier over one character\<close>

text \<open>
  The two equations of \<open>m\<close> for \<open>*\<close> and \<open>*?\<close> unfold without end on a string that is a
  variable; they are used one step at a time.  Over a single character the greedy quantifier
  offers the ends of the run from the farthest to the nearest, the lazy one from the nearest to the
  farthest.
\<close>

declare m.simps(6) [simp del]
declare m.simps(7) [simp del]

lemma substring_to_end [simp]: "substring s i (length s) = drop i s"
  by (simp add: substring_def)

lemma substring_from_0 [simp]: "substring s 0 j = take j s"
  by (simp add: substring_def)

lemma reset_atom [simp]: "reset (Atom a) cs = cs"
  by (simp add: reset_def)

lemma run_ge [simp]: "length s \<le> i \<Longrightarrow> run a s i = 0"
  by (simp add: run_def)

lemma run_step: "i < length s \<Longrightarrow> run a s i = (if atom_ok a (s ! i) then Suc (run a s (Suc i)) else 0)"
  by (simp add: run_def Cons_nth_drop_Suc [symmetric])

lemma run_le: "i + run a s i \<le> max i (length s)"
proof -
  have "run a s i \<le> length (drop i s)" unfolding run_def by (rule length_takeWhile_le)
  then show ?thesis by simp
qed

lemma starG_atom:
  "m (StarG (Atom a)) s (i, cs) = map (\<lambda>j. (j, cs)) (rev [i ..< Suc (i + run a s i)])"
proof (induction "length s - i" arbitrary: i)
  case 0
  then show ?case by (simp add: m.simps(6) m.simps(7))
next
  case (Suc n)
  then have lt: "i < length s" and n: "n = length s - Suc i" by simp_all
  show ?case
  proof (cases "atom_ok a (s ! i)")
    case True
    have "m (StarG (Atom a)) s (i, cs) = m (StarG (Atom a)) s (Suc i, cs) @ [(i, cs)]"
      using lt True by (subst m.simps(6)) simp
    also have "\<dots> = map (\<lambda>j. (j, cs)) (rev [Suc i ..< Suc (Suc i + run a s (Suc i))]) @ [(i, cs)]"
      using Suc.hyps(1) [OF n] by simp
    also have "\<dots> = map (\<lambda>j. (j, cs)) (rev [i ..< Suc (i + run a s i)])"
      using lt True by (simp add: run_step [of i] upt_conv_Cons)
    finally show ?thesis .
  next
    case False
    then show ?thesis using lt by (simp add: run_step m.simps(6) m.simps(7))
  qed
qed

lemma starL_atom:
  "m (StarL (Atom a)) s (i, cs) = map (\<lambda>j. (j, cs)) [i ..< Suc (i + run a s i)]"
proof (induction "length s - i" arbitrary: i)
  case 0
  then show ?case by (simp add: m.simps(6) m.simps(7))
next
  case (Suc n)
  then have lt: "i < length s" and n: "n = length s - Suc i" by simp_all
  show ?case
  proof (cases "atom_ok a (s ! i)")
    case True
    have "m (StarL (Atom a)) s (i, cs) = (i, cs) # m (StarL (Atom a)) s (Suc i, cs)"
      using lt True by (subst m.simps(7)) simp
    also have "\<dots> = (i, cs) # map (\<lambda>j. (j, cs)) [Suc i ..< Suc (Suc i + run a s (Suc i))]"
      using Suc.hyps(1) [OF n] by simp
    also have "\<dots> = map (\<lambda>j. (j, cs)) [i ..< Suc (i + run a s i)]"
      using lt True by (simp add: run_step [of i] upt_conv_Cons)
    finally show ?thesis .
  next
    case False
    then show ?thesis using lt by (simp add: run_step m.simps(6) m.simps(7))
  qed
qed

subsection \<open>A group that must reach the end of the string\<close>

lemma length_takeWhile_all: "length (takeWhile P xs) = length xs \<longleftrightarrow> (\<forall>x\<in>set xs. P x)"
  by (induction xs) auto

lemma run_full: "i \<le> length s \<Longrightarrow> i + run a s i = length s \<longleftrightarrow> (\<forall>x\<in>set (drop i s). atom_ok a x)"
proof -
  assume le: "i \<le> length s"
  have "run a s i = length (drop i s) \<longleftrightarrow> (\<forall>x\<in>set (drop i s). atom_ok a x)"
    unfolding run_def by (rule length_takeWhile_all)
  moreover have "i + run a s i = length s \<longleftrightarrow> run a s i = length (drop i s)"
    using le by auto
  ultimately show ?thesis by simp
qed

lemma filter_eq_upt: "filter (\<lambda>k. k = L) [a ..< b] = (if a \<le> L \<and> L < b then [L] else [])"
  by (induction b) auto

lemma eol_concat: "concat (map (m Eol s) xs) = filter (\<lambda>st. fst st = length s) xs"
  by (induction xs) auto

lemma search_none: "(\<And>i. i \<in> set is \<Longrightarrow> m r s (i, \<lambda>n. None) = []) \<Longrightarrow> search r s is = None"
  by (induction "is") auto

lemma bol_fail: "0 < i \<Longrightarrow> m (Cat Bol r) s (i, cs) = []"
  by simp

lemma group_to_end:
  assumes "j \<le> length s"
  shows "m (Cat (Grp n (StarG (Atom a))) Eol) s (j, c) =
           (if \<forall>x\<in>set (drop j s). atom_ok a x then [(length s, c(n \<mapsto> (j, length s)))] else [])"
proof -
  have le: "j + run a s j \<le> length s" using run_le [of j a s] assms by simp
  have "m (Cat (Grp n (StarG (Atom a))) Eol) s (j, c) =
          filter (\<lambda>st. fst st = length s) (map (\<lambda>k. (k, c(n \<mapsto> (j, k)))) (rev [j ..< Suc (j + run a s j)]))"
    unfolding m.simps(5) eol_concat m.simps(9) starG_atom by (simp add: comp_def del: upt_Suc)
  also have "\<dots> = map (\<lambda>k. (k, c(n \<mapsto> (j, k)))) (rev (filter (\<lambda>k. k = length s) [j ..< Suc (j + run a s j)]))"
    by (simp add: filter_map comp_def rev_filter del: upt_Suc)
  also have "\<dots> = (if j + run a s j = length s then [(length s, c(n \<mapsto> (j, length s)))] else [])"
    unfolding filter_eq_upt using le assms by auto
  finally show ?thesis using run_full [OF assms, of a] by simp
qed

subsection \<open>The pattern of a body line\<close>

text \<open>
  \<open>/^(\s*)(.*)$/\<close> matches exactly when no line terminator follows the leading whitespace;
  group 1 is then all of the leading whitespace and group 2 the rest.
\<close>

lemma atom_ok_Space [simp]: "atom_ok Space = isSpace"
  by (rule ext) simp

lemma run_Space_0: "run Space s 0 = length (takeWhile isSpace s)"
  by (simp add: run_def)

lemma match_body:
  "match rx_body 2 s =
     (if \<forall>x\<in>set (dropWhile isSpace s). \<not> isLineTerminator x
      then Some [Some s, Some (takeWhile isSpace s), Some (dropWhile isSpace s)]
      else None)"
proof -
  define e :: caps where "e = (\<lambda>n. None)"
  define I where "I = length (takeWhile isSpace s)"
  define R where "R = Cat (Grp 2 (StarG (Atom AnyChar))) Eol"
  have I_le: "I \<le> length s" unfolding I_def by (rule length_takeWhile_le)
  have tk: "take I s = takeWhile isSpace s" unfolding I_def by (simp add: takeWhile_eq_take [symmetric])
  have dr: "drop I s = dropWhile isSpace s" unfolding I_def by (simp add: dropWhile_eq_drop [symmetric])
  have rx: "rx_body = Cat Bol (Cat (Grp 1 (StarG (Atom Space))) R)"
    by (simp add: rx_body_def R_def)
  have m0: "m rx_body s (0, e) = concat (map (\<lambda>j. m R s (j, e(1 \<mapsto> (0, j)))) (rev [0 ..< Suc I]))"
    unfolding rx by (simp add: starG_atom run_Space_0 I_def [symmetric] comp_def del: upt_Suc)
  have mR: "m R s (j, c) =
      (if \<forall>x\<in>set (drop j s). \<not> isLineTerminator x then [(length s, c(2 \<mapsto> (j, length s)))] else [])"
    if "j \<le> length s" for j c
    unfolding R_def using group_to_end [OF that, of 2 AnyChar c] by simp
  have pos: "m rx_body s (i, e) = []" if "0 < i" for i
    unfolding rx using that by (rule bol_fail)
  show ?thesis
  proof (cases "\<forall>x\<in>set (dropWhile isSpace s). \<not> isLineTerminator x")
    case True
    have "rev [0 ..< Suc I] = I # rev [0 ..< I]" by simp
    then have "m rx_body s (0, e) =
        (length s, e(1 \<mapsto> (0, I), 2 \<mapsto> (I, length s))) #
        concat (map (\<lambda>j. m R s (j, e(1 \<mapsto> (0, j)))) (rev [0 ..< I]))"
      unfolding m0 using True mR [OF I_le] dr by simp
    then have "search rx_body s [0 ..< Suc (length s)] =
        Some (0, length s, e(1 \<mapsto> (0, I), 2 \<mapsto> (I, length s)))"
      by (simp add: upt_conv_Cons e_def del: upt_Suc)
    then show ?thesis using True
      by (simp add: match_def tk dr upt_conv_Cons del: upt_Suc)
  next
    case False
    have "m R s (j, e(1 \<mapsto> (0, j))) = []" if "j \<in> set (rev [0 ..< Suc I])" for j
    proof -
      from that have jI: "j \<le> I" by auto
      then have "set (drop I s) \<subseteq> set (drop j s)" by (rule set_drop_subset_set_drop)
      with False dr have "\<not> (\<forall>x\<in>set (drop j s). \<not> isLineTerminator x)" by auto
      then show ?thesis using mR [of j] jI I_le by simp
    qed
    then have "m rx_body s (0, e) = []" unfolding m0 by simp
    with pos have "m rx_body s (i, e) = []" for i by (cases i) auto
    then have "search rx_body s [0 ..< Suc (length s)] = None"
      unfolding e_def by (intro search_none)
    then show ?thesis using False by (simp add: match_def)
  qed
qed

lemma extractFromCodeBody_eq:
  "extractFromCodeBody lineText titleIndent =
     Inr (if (\<exists>x\<in>set (dropWhile isSpace lineText). isLineTerminator x) \<or>
             length (takeWhile isSpace lineText) \<le> titleIndent
          then None
          else Some (drop (length (takeWhile isSpace lineText) - titleIndent) (takeWhile isSpace lineText)
                     @ dropWhile isSpace lineText))"
  by (simp add: extractFromCodeBody_def match_body bindE_def group_def)

subsection \<open>Which states the matcher can reach\<close>

lemma in_Cat:
  "(j, cs') \<in> set (m (Cat a b) s st) \<longleftrightarrow>
     (\<exists>k c. (k, c) \<in> set (m a s st) \<and> (j, cs') \<in> set (m b s (k, c)))"
  by auto

lemma in_StarG_atom:
  "(j, cs') \<in> set (m (StarG (Atom a)) s (i, cs)) \<longleftrightarrow> cs' = cs \<and> i \<le> j \<and> j \<le> i + run a s i"
  unfolding starG_atom by auto

lemma in_StarL_atom:
  "(j, cs') \<in> set (m (StarL (Atom a)) s (i, cs)) \<longleftrightarrow> cs' = cs \<and> i \<le> j \<and> j \<le> i + run a s i"
  unfolding starL_atom by auto

lemma run_nth: "k < run a s i \<Longrightarrow> atom_ok a (s ! (i + k))"
proof -
  assume k: "k < run a s i"
  then have "takeWhile (atom_ok a) (drop i s) ! k = drop i s ! k"
    unfolding run_def by (rule takeWhile_nth)
  moreover have "atom_ok a (takeWhile (atom_ok a) (drop i s) ! k)"
    using k unfolding run_def by (metis nth_mem set_takeWhileD)
  moreover have "i + k < length s"
    using k run_le [of i a s] by (cases "i \<le> length s") (auto simp: max_def)
  ultimately show ?thesis by simp
qed

lemma not_space_c: "\<not> isSpace (of_char CHR ''c'')"
  by (simp add: isSpace_def isWhiteSpace_def isLineTerminator_def)

lemma in_Grp:
  "(j, cs') \<in> set (m (Grp n r) s (i, cs)) \<longleftrightarrow> (\<exists>c. (j, c) \<in> set (m r s (i, cs)) \<and> cs' = c(n \<mapsto> (i, j)))"
  by (force simp: image_iff)

lemma in_OptG:
  "x \<in> set (m (OptG r) s (i, cs)) \<longleftrightarrow> x = (i, cs) \<or> (x \<in> set (m r s (i, reset r cs)) \<and> i < fst x)"
  by auto

lemma in_Atom:
  "(j, cs') \<in> set (m (Atom a) s (i, cs)) \<longleftrightarrow> i < length s \<and> atom_ok a (s ! i) \<and> j = Suc i \<and> cs' = cs"
  by auto

lemma in_Eol: "(j, cs') \<in> set (m Eol s (i, cs)) \<longleftrightarrow> i = length s \<and> j = i \<and> cs' = cs"
  by auto

lemma in_Bol: "(j, cs') \<in> set (m Bol s (i, cs)) \<longleftrightarrow> i = 0 \<and> j = i \<and> cs' = cs"
  by auto

lemma search_Some:
  "search r s is = Some (i, j, cs) \<Longrightarrow> (j, cs) \<in> set (m r s (i, \<lambda>n. None)) \<and> i \<in> set is"
  by (induction "is") (auto split: list.splits)

lemma m_keeps:
  "(j, cs') \<in> set (m r s st) \<Longrightarrow> n \<notin> set (groups r) \<Longrightarrow> cs' n = snd st n"
proof (induction r s st arbitrary: j cs' rule: m.induct)
  case (5 a b s st)
  from 5(3) obtain k c where y: "(k, c) \<in> set (m a s st)" "(j, cs') \<in> set (m b s (k, c))"
    by (auto simp: in_Cat)
  from 5(4) have na: "n \<notin> set (groups a)" and nb: "n \<notin> set (groups b)" by simp_all
  from 5(1) [OF y(1) na] 5(2) [OF y(1) y(2) nb] show ?case by simp
next
  case (6 r s i cs)
  then show ?case by (fastforce simp: m.simps(6) [of r s i cs] reset_def split: if_splits)
next
  case (7 r s i cs)
  then show ?case by (fastforce simp: m.simps(7) [of r s i cs] reset_def split: if_splits)
next
  case (8 r s i cs)
  then show ?case by (fastforce simp: reset_def)
next
  case (9 n r s i cs)
  then show ?case by (auto simp: in_Grp)
qed (auto split: if_splits)

subsection \<open>The pattern of a title line\<close>

text \<open>
  Whatever way \<open>/^(\s*)code:(.+?)(\(.+\)){0,1}\s*$/\<close> matches, group 1 is all of the leading
  whitespace (the next character must be \<open>c\<close>), group 2 is not empty and holds no line
  terminator, and group 3, when it takes part, begins with \<open>(\<close>, ends with \<open>)\<close> and has
  something in between.
\<close>

lemma Suc5: "Suc (Suc (Suc (Suc (Suc k)))) = k + 5"
  by simp

lemma title_outcome:
  assumes "(j, cs) \<in> set (m rx_title s (i, \<lambda>n. None))"
  defines "I \<equiv> length (takeWhile isSpace s)"
  shows "i = 0 \<and> j = length s \<and> cs 1 = Some (0, I) \<and>
         (\<exists>q. cs 2 = Some (I + 5, q) \<and> I + 5 < q \<and> q \<le> length s \<and>
              (\<forall>k. I + 5 \<le> k \<and> k < q \<longrightarrow> \<not> isLineTerminator (s ! k)) \<and>
              (cs 3 = None \<or>
               (\<exists>r. cs 3 = Some (q, r) \<and> q + 3 \<le> r \<and> r \<le> length s \<and>
                    s ! q = of_char CHR ''('' \<and> s ! (r - 1) = of_char CHR '')'')))"
proof -
  define T3 where "T3 = Cat (OptG (Grp 3 (seq (chars ''('' @ [PlusG (Atom AnyChar)] @ chars '')''))))
                            (Cat (StarG (Atom Space)) Eol)"
  have rx: "rx_title = Cat Bol (Cat (Grp 1 (StarG (Atom Space)))
      (Cat (Atom (Chr (of_char CHR ''c''))) (Cat (Atom (Chr (of_char CHR ''o'')))
      (Cat (Atom (Chr (of_char CHR ''d''))) (Cat (Atom (Chr (of_char CHR ''e'')))
      (Cat (Atom (Chr (of_char CHR '':'')))
      (Cat (Grp 2 (Cat (Atom AnyChar) (StarL (Atom AnyChar)))) T3)))))))"
    unfolding rx_title_def chars_def PlusL_def T3_def by simp
  from assms(1) obtain p q c where
    i: "i = 0" and p: "p \<le> run Space s 0" and pc: "p < length s" "s ! p = of_char CHR ''c''"
    and q: "Suc (p + 5) \<le> q" "q \<le> Suc (p + 5) + run AnyChar s (Suc (p + 5))"
    and q0: "p + 5 < length s" "\<not> isLineTerminator (s ! (p + 5))"
    and rest: "(j, cs) \<in> set (m T3 s (q, ((\<lambda>n. None)(1 \<mapsto> (0, p)))(2 \<mapsto> (p + 5, q))))"
    unfolding rx
    by (auto simp add: in_Cat in_Bol in_Grp in_StarG_atom in_StarL_atom in_Atom Suc5 simp del: m.simps)
  have pI: "p = I"
  proof (rule ccontr)
    assume "p \<noteq> I"
    with p have "p < run Space s 0" by (simp add: run_Space_0 I_def)
    from run_nth [OF this] pc(2) not_space_c show False by simp
  qed
  have qlen: "q \<le> length s"
    using q(2) q0(1) run_le [of "Suc (p + 5)" AnyChar s] by (simp add: max_def)
  have noLT: "\<not> isLineTerminator (s ! k)" if "I + 5 \<le> k" "k < q" for k
  proof (cases "k = p + 5")
    case True
    then show ?thesis using q0(2) by simp
  next
    case False
    with that pI have "k - Suc (p + 5) < run AnyChar s (Suc (p + 5))" using q(2) by simp
    from run_nth [OF this] that False pI show ?thesis by simp
  qed
  have g: "groups T3 = [3]"
    by (simp add: T3_def chars_def PlusG_def)
  from rest have j: "j = length s"
    unfolding T3_def by (auto simp add: in_Cat in_Eol simp del: m.simps)
  from m_keeps [OF rest, of 1] m_keeps [OF rest, of 2] g
  have c12: "cs 1 = Some (0, p)" "cs 2 = Some (p + 5, q)" by simp_all
  define G3 where "G3 = Grp 3 (Cat (Atom (Chr (of_char CHR ''('')))
      (Cat (Cat (Atom AnyChar) (StarG (Atom AnyChar))) (Atom (Chr (of_char CHR '')'')))))"
  define e2 :: caps where "e2 = ((\<lambda>n. None)(1 \<mapsto> (0, p)))(2 \<mapsto> (p + 5, q))"
  have T3: "T3 = Cat (OptG G3) (Cat (StarG (Atom Space)) Eol)"
    by (simp add: T3_def G3_def chars_def PlusG_def)
  from rest obtain k c where kc: "(k, c) \<in> set (m (OptG G3) s (q, e2))"
    and tail: "(j, cs) \<in> set (m (Cat (StarG (Atom Space)) Eol) s (k, c))"
    unfolding T3 e2_def by (auto simp add: in_Cat simp del: m.simps)
  from m_keeps [OF tail, of 3] have cs3: "cs 3 = c 3" by simp
  from kc have "(k, c) = (q, e2) \<or> ((k, c) \<in> set (m G3 s (q, reset G3 e2)) \<and> q < k)"
    by (simp only: in_OptG fst_conv)
  then have tag: "cs 3 = None \<or>
               (\<exists>r. cs 3 = Some (q, r) \<and> q + 3 \<le> r \<and> r \<le> length s \<and>
                    s ! q = of_char CHR ''('' \<and> s ! (r - 1) = of_char CHR '')'')"
  proof
    assume "(k, c) = (q, e2)"
    then show ?thesis using cs3 by (simp add: e2_def)
  next
    assume "(k, c) \<in> set (m G3 s (q, reset G3 e2)) \<and> q < k"
    then have "c 3 = Some (q, k) \<and> q + 3 \<le> k \<and> k \<le> length s \<and>
        s ! q = of_char CHR ''('' \<and> s ! (k - 1) = of_char CHR '')''"
      unfolding G3_def
      by (auto simp add: in_Cat in_Grp in_StarG_atom in_Atom simp del: m.simps)
    then show ?thesis using cs3 by auto
  qed
  from c12 tag i j pI q(1) qlen noLT show ?thesis by auto
qed

lemma match_title:
  assumes "match rx_title 3 s = Some matched"
  shows "\<exists>g2 g3. matched = [Some s, Some (takeWhile isSpace s), Some g2, g3] \<and>
                  g2 \<noteq> [] \<and> list_all (\<lambda>c. \<not> isLineTerminator c) g2 \<and>
                  (g3 = None \<or>
                   (\<exists>inner. inner \<noteq> [] \<and>
                      g3 = Some (of_char CHR ''('' # inner @ [of_char CHR '')''])))"
proof -
  define I where "I = length (takeWhile isSpace s)"
  from assms obtain i j cs where se: "search rx_title s [0 ..< Suc (length s)] = Some (i, j, cs)"
    and ma: "matched = Some (substring s i j) #
                map (\<lambda>k. case cs k of None \<Rightarrow> None | Some (a, b) \<Rightarrow> Some (substring s a b)) [1 ..< Suc 3]"
    by (auto simp: match_def split: option.splits)
  from search_Some [OF se] have "(j, cs) \<in> set (m rx_title s (i, \<lambda>n. None))" by simp
  from title_outcome [OF this] obtain q where
    f: "i = 0" "j = length s" "cs 1 = Some (0, I)" "cs 2 = Some (I + 5, q)" "I + 5 < q" "q \<le> length s"
    and noLT: "\<And>k. I + 5 \<le> k \<Longrightarrow> k < q \<Longrightarrow> \<not> isLineTerminator (s ! k)"
    and tag: "cs 3 = None \<or>
               (\<exists>r. cs 3 = Some (q, r) \<and> q + 3 \<le> r \<and> r \<le> length s \<and>
                    s ! q = of_char CHR ''('' \<and> s ! (r - 1) = of_char CHR '')'')"
    unfolding I_def by blast
  have l: "[1 ..< Suc 3] = [1, 2, 3]" by (simp add: upt_conv_Cons)
  have tk: "take I s = takeWhile isSpace s" unfolding I_def by (simp add: takeWhile_eq_take [symmetric])
  define g2 where "g2 = substring s (I + 5) q"
  have len: "length g2 = q - (I + 5)" using f(6) by (simp add: g2_def substring_def)
  have nth: "g2 ! n = s ! (I + 5 + n)" if "n < length g2" for n
    using that len f(6) by (simp add: g2_def substring_def)
  have "list_all (\<lambda>c. \<not> isLineTerminator c) g2"
    unfolding list_all_length using nth noLT len by simp
  moreover have "g2 \<noteq> []" using len f(5) by auto
  moreover have "matched = [Some s, Some (takeWhile isSpace s), Some g2,
      (case cs 3 of None \<Rightarrow> None | Some (a, b) \<Rightarrow> Some (substring s a b))]"
    unfolding ma l using f tk by (simp add: g2_def)
  moreover have "(case cs 3 of None \<Rightarrow> None | Some (a, b) \<Rightarrow> Some (substring s a b)) = None \<or>
      (\<exists>inner. inner \<noteq> [] \<and>
          (case cs 3 of None \<Rightarrow> None | Some (a, b) \<Rightarrow> Some (substring s a b)) =
            Some (of_char CHR ''('' # inner @ [of_char CHR '')'']))"
    using tag
  proof
    assume "cs 3 = None"
    then show ?thesis by simp
  next
    assume "\<exists>r. cs 3 = Some (q, r) \<and> q + 3 \<le> r \<and> r \<le> length s \<and>
                    s ! q = of_char CHR ''('' \<and> s ! (r - 1) = of_char CHR '')''"
    then obtain r where r: "cs 3 = Some (q, r)" "q + 3 \<le> r" "r \<le> length s"
      "s ! q = of_char CHR ''(''" "s ! (r - 1) = of_char CHR '')''" by blast
    define g where "g = substring s q r"
    have lg: "length g = r - q" using r(3) by (simp add: g_def substring_def)
    have "hd g = of_char CHR ''(''"
      using r lg by (simp add: g_def substring_def hd_conv_nth hd_drop_conv_nth)
    moreover have "last g = of_char CHR '')''"
      using r lg by (simp add: g_def substring_def last_conv_nth nth_append)
    moreover have "g = hd g # butlast (tl g) @ [last g]" "butlast (tl g) \<noteq> []"
      using lg r(2) by (cases g; cases "tl g" rule: rev_cases; cases "butlast (tl g)"; simp)+
    ultimately have "g = of_char CHR ''('' # butlast (tl g) @ [of_char CHR '')'']" by simp
    then have "substring s q r = of_char CHR ''('' # butlast (tl g) @ [of_char CHR '')'']"
      by (simp only: g_def [symmetric])
    with \<open>butlast (tl g) \<noteq> []\<close> show ?thesis
      unfolding r(1) by (simp only: option.case prod.case) blast
  qed
  ultimately show ?thesis by blast
qed

subsection \<open>The pattern of a file name with an extension\<close>

text \<open>
  On a name without line terminators \<open>/.+\.(.*)$/\<close> matches exactly when a dot stands after
  the first character; the match then starts at index 0, \<open>.+\<close> runs to the last dot and
  group 1 is what follows it.
\<close>

lemma upt_split: "a \<le> K \<Longrightarrow> K < b \<Longrightarrow> [a ..< b] = [a ..< K] @ K # [Suc K ..< b]"
  using upt_add_eq_append [of a K "b - K"] by (simp add: upt_conv_Cons)

lemma dot_tail:
  "m (Cat (Atom (Chr d)) (Cat (Grp n (StarG (Atom a))) Eol)) s (k, c) =
     (if k < length s \<and> s ! k = d \<and> (\<forall>x\<in>set (drop (Suc k) s). atom_ok a x)
      then [(length s, c(n \<mapsto> (Suc k, length s)))] else [])"
proof (cases "k < length s \<and> s ! k = d")
  case True
  then have "Suc k \<le> length s" by simp
  from group_to_end [OF this, of n a c] True show ?thesis by simp
next
  case False
  then show ?thesis by auto
qed

lemma m_ext:
  assumes "list_all (\<lambda>c. \<not> isLineTerminator c) fn"
  shows "m rx_ext fn (i, e) =
     (if i < length fn
      then concat (map (\<lambda>k. if k < length fn \<and> fn ! k = of_char CHR ''.''
                              then [(length fn, e(1 \<mapsto> (Suc k, length fn)))] else [])
                       (rev [Suc i ..< Suc (length fn)]))
      else [])"
proof (cases "i < length fn")
  case True
  define R where "R = Cat (Atom (Chr (of_char CHR ''.''))) (Cat (Grp 1 (StarG (Atom AnyChar))) Eol)"
  have rx: "rx_ext = Cat (Cat (Atom AnyChar) (StarG (Atom AnyChar))) R"
    by (simp add: rx_ext_def chars_def PlusG_def R_def)
  have ok: "\<forall>x\<in>set (drop k fn). atom_ok AnyChar x" for k
    using assms by (auto simp: list_all_iff dest: in_set_dropD)
  have "Suc i + run AnyChar fn (Suc i) = length fn"
    using run_full [of "Suc i" fn AnyChar] ok True by simp
  moreover have "atom_ok AnyChar (fn ! i)"
    using assms True by (simp add: list_all_length)
  moreover have "m R fn (k, c) =
     (if k < length fn \<and> fn ! k = of_char CHR ''.'' then [(length fn, c(1 \<mapsto> (Suc k, length fn)))] else [])"
    for k c unfolding R_def dot_tail using ok by simp
  ultimately show ?thesis
    unfolding rx using True by (simp add: starG_atom comp_def del: upt_Suc)
next
  case False
  then show ?thesis by (simp add: rx_ext_def chars_def PlusG_def)
qed

lemma match_ext:
  assumes "list_all (\<lambda>c. \<not> isLineTerminator c) fn"
  shows "match rx_ext 1 fn =
     (if of_char CHR ''.'' \<in> set (tl fn) then Some [Some fn, Some (extension fn)] else None)"
proof (cases "of_char CHR ''.'' \<in> set (tl fn)")
  case True
  define d :: codeunit where "d = of_char CHR ''.''"
  from True obtain ys zs where sp: "tl fn = ys @ d # zs" and zs: "d \<notin> set zs"
    unfolding d_def by (auto dest: split_list_last)
  then obtain x where fn: "fn = x # ys @ d # zs" by (cases fn) auto
  define K where "K = Suc (length ys)"
  define f :: "nat \<Rightarrow> (nat \<times> caps) list"
    where "f = (\<lambda>k. if k < length fn \<and> fn ! k = d
                    then [(length fn, (\<lambda>n. None)(1 \<mapsto> (Suc k, length fn)))] else [])"
  have len: "length fn = Suc K + length zs" by (simp add: fn K_def)
  have fK: "f K = [(length fn, (\<lambda>n. None)(1 \<mapsto> (Suc K, length fn)))]"
    unfolding f_def using len by (simp add: fn K_def nth_append)
  have above: "f k = []" if "k \<in> set (rev [Suc K ..< Suc (length fn)])" for k
  proof (cases "k < length fn")
    case True
    with that have "fn ! k = zs ! (k - Suc K)" by (auto simp add: fn K_def nth_append nth_Cons')
    moreover have "k - Suc K < length zs" using True that len by auto
    ultimately have "fn ! k \<in> set zs" by simp
    with zs show ?thesis by (auto simp: f_def)
  next
    case False
    then show ?thesis by (simp add: f_def)
  qed
  have "[Suc 0 ..< Suc (length fn)] = [Suc 0 ..< K] @ K # [Suc K ..< Suc (length fn)]"
    using len by (intro upt_split) (simp_all add: K_def)
  then have "rev [Suc 0 ..< Suc (length fn)] = rev [Suc K ..< Suc (length fn)] @ K # rev [Suc 0 ..< K]"
    by simp
  then have "concat (map f (rev [Suc 0 ..< Suc (length fn)])) =
      f K @ concat (map f (rev [Suc 0 ..< K]))"
    using above by simp
  then have "m rx_ext fn (0, \<lambda>n. None) =
      (length fn, (\<lambda>n. None)(1 \<mapsto> (Suc K, length fn))) # concat (map f (rev [Suc 0 ..< K]))"
    unfolding m_ext [OF assms] using fK len by (simp add: f_def d_def del: upt_Suc)
  then have "search rx_ext fn [0 ..< Suc (length fn)] =
      Some (0, length fn, (\<lambda>n. None)(1 \<mapsto> (Suc K, length fn)))"
    by (simp add: upt_conv_Cons del: upt_Suc)
  moreover have "drop (Suc K) fn = zs" by (simp add: fn K_def)
  moreover have "extension fn = zs"
  proof -
    have "takeWhile (\<lambda>c. c \<noteq> d) (rev zs) = rev zs"
      using zs by (auto simp: takeWhile_eq_all_conv)
    moreover have "rev fn = rev zs @ d # rev (x # ys)" by (simp add: fn)
    ultimately have "takeWhile (\<lambda>c. c \<noteq> d) (rev fn) = rev zs"
      by (simp only: takeWhile_tail simp_thms)
    then show ?thesis
      unfolding extension_def d_def [symmetric] by simp
  qed
  ultimately show ?thesis using True by (simp add: match_def)
next
  case False
  have "m rx_ext fn (i, \<lambda>n. None) = []" for i
  proof -
    have "fn ! k \<noteq> of_char CHR ''.''" if "k \<in> set (rev [Suc i ..< Suc (length fn)])" "k < length fn" for k
    proof -
      from that have "fn ! k = tl fn ! (k - 1)" "k - 1 < length (tl fn)"
        by (auto simp: nth_tl)
      then have "fn ! k \<in> set (tl fn)" by (metis nth_mem)
      with False show ?thesis by auto
    qed
    then show ?thesis unfolding m_ext [OF assms] by simp
  qed
  then have "search rx_ext fn [0 ..< Suc (length fn)] = None" by (intro search_none)
  then show ?thesis using False by (simp add: match_def)
qed

subsection \<open>The three outcomes of the title helper\<close>

lemma set_trim: "set (trim g) \<subseteq> set g"
  unfolding trim_def by (auto dest!: set_dropWhileD)

lemma extractFromCodeTitle_cases:
  obtains (none) "match rx_title 3 s = None" "extractFromCodeTitle s = Inr None"
  | (plain) g2 where "match rx_title 3 s = Some [Some s, Some (takeWhile isSpace s), Some g2, None]"
      "extractFromCodeTitle s =
         (if of_char CHR ''.'' \<notin> set (tl (trim g2))
          then Inr (Some \<lparr>fileName = trim g2, title_lang = trim g2, indent = indentation s\<rparr>)
          else if extension (trim g2) = [] then Inr None
          else Inr (Some \<lparr>fileName = trim g2, title_lang = extension (trim g2), indent = indentation s\<rparr>))"
  | (tagged) g2 g3 inner where
      "match rx_title 3 s = Some [Some s, Some (takeWhile isSpace s), Some g2, Some g3]"
      "extractFromCodeTitle s = Inr (Some \<lparr>fileName = trim g2, title_lang = g3, indent = indentation s\<rparr>)"
      "g3 = of_char CHR ''('' # inner @ [of_char CHR '')'']" "inner \<noteq> []"
proof (cases "match rx_title 3 s")
  case None
  then have "extractFromCodeTitle s = Inr None" by (simp add: extractFromCodeTitle_def)
  with None show ?thesis by (rule none)
next
  case (Some matched)
  from match_title [OF Some] obtain g2 g3 where
    ma: "matched = [Some s, Some (takeWhile isSpace s), Some g2, g3]"
    and g2: "list_all (\<lambda>c. \<not> isLineTerminator c) g2"
    and g3: "g3 = None \<or>
       (\<exists>inner. inner \<noteq> [] \<and> g3 = Some (of_char CHR ''('' # inner @ [of_char CHR '')'']))"
    by blast
  have "list_all (\<lambda>c. \<not> isLineTerminator c) (trim g2)"
    using g2 set_trim [of g2] by (auto simp: list_all_iff)
  note ext = match_ext [OF this, simplified]
  show ?thesis
  proof (cases g3)
    case None
    have "extractFromCodeTitle s =
         (if of_char CHR ''.'' \<notin> set (tl (trim g2))
          then Inr (Some \<lparr>fileName = trim g2, title_lang = trim g2, indent = indentation s\<rparr>)
          else if extension (trim g2) = [] then Inr None
          else Inr (Some \<lparr>fileName = trim g2, title_lang = extension (trim g2), indent = indentation s\<rparr>))"
      unfolding extractFromCodeTitle_def Some ma None
      by (simp add: bindE_def group_def is_undefined_def ext indentation_def Let_def)
    with Some ma None show ?thesis by (intro plain) simp_all
  next
    case (Some l)
    have "extractFromCodeTitle s = Inr (Some \<lparr>fileName = trim g2, title_lang = l, indent = indentation s\<rparr>)"
      unfolding extractFromCodeTitle_def \<open>match rx_title 3 s = Some matched\<close> ma Some
      by (simp add: bindE_def group_def is_undefined_def indentation_def Let_def)
    moreover from g3 Some obtain inner where
      "inner \<noteq> []" "l = of_char CHR ''('' # inner @ [of_char CHR '')'']" by auto
    ultimately show ?thesis
      using \<open>match rx_title 3 s = Some matched\<close> ma Some by (intro tagged) simp_all
  qed
qed

lemma extractFromCodeTitle_total: "\<exists>r. extractFromCodeTitle s = Inr r"
  by (cases s rule: extractFromCodeTitle_cases) auto

lemma extractFromCodeTitle_indent:
  "extractFromCodeTitle s = Inr (Some t) \<Longrightarrow> indent t = indentation s"
  by (cases s rule: extractFromCodeTitle_cases) (auto split: if_splits)

section \<open>The invariant of the loop\<close>

lemma closed_in_snoc: "closed_in ls b \<Longrightarrow> closed_in (ls @ [l]) b"
  unfolding closed_in_def by (metis append_Cons append_assoc)

lemma extractFromCodeBody_total: "\<exists>r. extractFromCodeBody s T = Inr r"
  by (simp add: extractFromCodeBody_eq)

lemma CodeTitle_eta:
  "extractFromCodeTitle s = Inr (Some t) \<Longrightarrow>
   t = \<lparr>fileName = fileName t, title_lang = title_lang t, indent = indentation s\<rparr>"
  by (frule extractFromCodeTitle_indent) simp

lemma step_inv:
  assumes "inv ls st"
  shows "\<exists>st'. step f l st = Inr st' \<and> inv (ls @ [l]) st'"
proof -
  obtain cur out where st: "st = (cur, out)" by (cases st)
  show ?thesis
  proof (cases "isCodeBlock cur")
    case True
    obtain body where body: "extractFromCodeBody (line_text l) (indent cur) = Inr body"
      using extractFromCodeBody_total by blast
    show ?thesis
    proof (cases "isCollect cur")
      case False
      with True assms st have "list_all (closed_in ls) out" by (simp add: inv_def)
      then have "list_all (closed_in (ls @ [l])) out"
        by (auto simp: list_all_iff intro: closed_in_snoc)
      with True False body st show ?thesis
        by (cases body) (simp_all add: step_def bindE_def inv_def)
    next
      case collect: True
      with True assms st have out: "out \<noteq> []"
        and cl: "list_all (closed_in ls) (butlast out)"
        and op: "open_in ls (last out)"
        and ind: "indent cur = indentation (line_text (titleLine (last out)))"
        and nm: "fileName cur = filename (last out)" "title_lang cur = lang (last out)"
        by (simp_all add: inv_def)
      from cl have cl': "list_all (closed_in (ls @ [l])) (butlast out)"
        by (auto simp: list_all_iff intro: closed_in_snoc)
      from op obtain pre where wf: "wf_block (last out)"
        and pre: "ls = pre @ titleLine (last out) # bodyLines (last out)"
        and nx: "nextLine (last out) = None"
        unfolding open_in_def by blast
      show ?thesis
      proof (cases body)
        case None
        define b' where "b' = (last out)\<lparr>nextLine := Some l\<rparr>"
        have "closed_in (ls @ [l]) b'"
          unfolding closed_in_def
          using wf pre body None ind by (auto simp: b'_def wf_block_def)
        with cl' have "list_all (closed_in (ls @ [l])) (butlast out @ [b'])" by simp
        moreover have "step f l st = Inr (cur\<lparr>isCodeBlock := False\<rparr>, butlast out @ [b'])"
          using True collect body None out st by (simp add: step_def bindE_def update_last_def b'_def)
        ultimately show ?thesis by (simp add: inv_def)
      next
        case (Some x)
        define b' where "b' = (last out)\<lparr>bodyLines := bodyLines (last out) @ [l]\<rparr>"
        have "open_in (ls @ [l]) b'"
          unfolding open_in_def
          using wf pre body Some ind nx by (auto simp: b'_def wf_block_def)
        moreover have "step f l st = Inr (cur, butlast out @ [b'])"
          using True collect body Some out st by (simp add: step_def bindE_def update_last_def b'_def)
        ultimately show ?thesis
          using True collect cl' ind nm by (simp add: inv_def b'_def)
      qed
    qed
  next
    case False
    with assms st have "list_all (closed_in ls) out" by (simp add: inv_def)
    then have cl': "list_all (closed_in (ls @ [l])) out"
      by (auto simp: list_all_iff intro: closed_in_snoc)
    obtain r where r: "extractFromCodeTitle (line_text l) = Inr r"
      using extractFromCodeTitle_total by blast
    show ?thesis
    proof (cases r)
      case None
      with False r st cl' show ?thesis by (simp add: step_def bindE_def inv_def)
    next
      case (Some t)
      show ?thesis
      proof (cases "isMatchFilter t f")
        case nomatch: False
        with False r Some st cl' show ?thesis
          by (simp add: step_def bindE_def inv_def CodeTitle.extend_def CurrentCode.fields_def Let_def)
      next
        case True
        define b where "b = \<lparr>filename = fileName t, lang = title_lang t, titleLine = l,
                               bodyLines = [], nextLine = None\<rparr>"
        have "open_in (ls @ [l]) b"
          unfolding open_in_def wf_block_def
          using CodeTitle_eta [OF r [unfolded Some]] r Some by (simp add: b_def)
        moreover have "step f l st =
            Inr (CodeTitle.extend t (CurrentCode.fields True True), out @ [b])"
          using False r Some True st
          by (simp add: step_def bindE_def Let_def b_def CodeTitle.extend_def CurrentCode.fields_def)
        moreover have "indent t = indentation (line_text l)"
          using r Some by (simp add: extractFromCodeTitle_indent)
        ultimately show ?thesis using cl'
          by (simp add: inv_def b_def CodeTitle.extend_def CurrentCode.fields_def)
      qed
    qed
  qed
qed

lemma loop_inv:
  "inv pre st \<Longrightarrow> \<exists>st'. loop f ls st = Inr st' \<and> inv (pre @ ls) st'"
proof (induction ls arbitrary: pre st)
  case Nil
  then show ?case by simp
next
  case (Cons l ls)
  from step_inv [OF Cons.prems, of f l] obtain st1 where
    s: "step f l st = Inr st1" and i: "inv (pre @ [l]) st1" by blast
  from Cons.IH [OF i] obtain st' where "loop f ls st1 = Inr st'" "inv ((pre @ [l]) @ ls) st'" by blast
  with s show ?case by (simp add: bindE_def)
qed

lemma inv_init: "inv [] (initialCode, [])"
  by (simp add: inv_def initialCode_def)

section \<open>A run with a filter against the run without\<close>

lemma isMatchFilter_cong:
  "fileName t = fileName t' \<Longrightarrow> title_lang t = title_lang t' \<Longrightarrow> isMatchFilter t f = isMatchFilter t' f"
  by (simp add: isMatchFilter_def split: option.splits)

lemma isMatchFilter_None [simp]: "isMatchFilter t None"
  by (simp add: isMatchFilter_def)

lemma filter_update_last:
  assumes "xs \<noteq> []" and "P (g (last xs)) = P (last xs)"
  shows "filter P (butlast xs @ [g (last xs)]) =
           (if P (last xs) then butlast (filter P xs) @ [g (last (filter P xs))] else filter P xs)"
proof -
  from assms(1) have xs: "xs = butlast xs @ [last xs]" by simp
  have "filter P xs = filter P (butlast xs) @ (if P (last xs) then [last xs] else [])"
    by (subst xs) simp
  then show ?thesis using assms(2) by auto
qed

lemma step_sim:
  assumes "sim f stU stF"
  shows "\<exists>stU' stF'. step None l stU = Inr stU' \<and> step f l stF = Inr stF' \<and> sim f stU' stF'"
proof -
  obtain cU oU where U: "stU = (cU, oU)" by (cases stU)
  obtain cF oF where F: "stF = (cF, oF)" by (cases stF)
  let ?P = "\<lambda>b. isMatchFilter (blockTitle b) f"
  from assms U F have cb: "isCodeBlock cF = isCodeBlock cU" and ind: "indent cF = indent cU"
    and oF: "oF = filter ?P oU" by (simp_all add: sim_def)
  show ?thesis
  proof (cases "isCodeBlock cU")
    case True
    with assms U F have colU: "isCollect cU" and ne: "oU \<noteq> []"
      and colF: "isCollect cF = ?P (last oU)" by (simp_all add: sim_def)
    obtain body where body: "extractFromCodeBody (line_text l) (indent cU) = Inr body"
      using extractFromCodeBody_total by blast
    have neF: "?P (last oU) \<Longrightarrow> oF \<noteq> []"
      using ne oF by (metis (mono_tags, lifting) filter_empty_conv last_in_set)
    have upd: "filter ?P (butlast oU @ [g (last oU)]) =
         (if ?P (last oU) then butlast oF @ [g (last oF)] else oF)"
      if "\<And>b. blockTitle (g b) = blockTitle b" for g
      unfolding oF using filter_update_last [OF ne, of ?P g] that by simp
    show ?thesis
    proof (cases body)
      case None
      let ?g = "\<lambda>b. b\<lparr>nextLine := Some l\<rparr>"
      have "step None l stU = Inr (cU\<lparr>isCodeBlock := False\<rparr>, butlast oU @ [?g (last oU)])"
        using True colU ne body None U by (simp add: step_def bindE_def update_last_def)
      moreover have "step f l stF =
          Inr (cF\<lparr>isCodeBlock := False\<rparr>, if ?P (last oU) then butlast oF @ [?g (last oF)] else oF)"
        using True cb ind colF neF body None F by (simp add: step_def bindE_def update_last_def)
      moreover have "sim f (cU\<lparr>isCodeBlock := False\<rparr>, butlast oU @ [?g (last oU)])
          (cF\<lparr>isCodeBlock := False\<rparr>, if ?P (last oU) then butlast oF @ [?g (last oF)] else oF)"
        unfolding sim_def using ind upd [of ?g] by (simp add: blockTitle_def)
      ultimately show ?thesis by blast
    next
      case (Some x)
      let ?g = "\<lambda>b. b\<lparr>bodyLines := bodyLines b @ [l]\<rparr>"
      have "step None l stU = Inr (cU, butlast oU @ [?g (last oU)])"
        using True colU ne body Some U by (simp add: step_def bindE_def update_last_def)
      moreover have "step f l stF =
          Inr (cF, if ?P (last oU) then butlast oF @ [?g (last oF)] else oF)"
        using True cb ind colF neF body Some F by (simp add: step_def bindE_def update_last_def)
      moreover have "sim f (cU, butlast oU @ [?g (last oU)])
          (cF, if ?P (last oU) then butlast oF @ [?g (last oF)] else oF)"
        unfolding sim_def using True cb ind colU colF upd [of ?g] by (simp add: blockTitle_def)
      ultimately show ?thesis by blast
    qed
  next
    case False
    obtain r where r: "extractFromCodeTitle (line_text l) = Inr r"
      using extractFromCodeTitle_total by blast
    show ?thesis
    proof (cases r)
      case None
      have "step None l stU = Inr (cU\<lparr>isCodeBlock := False\<rparr>, oU)"
        using False r None U by (simp add: step_def bindE_def)
      moreover have "step f l stF = Inr (cF\<lparr>isCodeBlock := False\<rparr>, oF)"
        using False cb r None F by (simp add: step_def bindE_def)
      moreover have "sim f (cU\<lparr>isCodeBlock := False\<rparr>, oU) (cF\<lparr>isCodeBlock := False\<rparr>, oF)"
        unfolding sim_def using ind oF by simp
      ultimately show ?thesis by blast
    next
      case (Some t)
      define b :: "'a Line_scheme TinyCodeBlock" where
        "b = \<lparr>filename = fileName t, lang = title_lang t, titleLine = l, bodyLines = [], nextLine = None\<rparr>"
      have pb: "?P b = isMatchFilter t f"
        by (rule isMatchFilter_cong) (simp_all add: blockTitle_def b_def)
      have "step None l stU = Inr (CodeTitle.extend t (CurrentCode.fields True True), oU @ [b])"
        using False r Some U
        by (simp add: step_def bindE_def Let_def b_def CodeTitle.extend_def CurrentCode.fields_def)
      moreover have "step f l stF =
          Inr (CodeTitle.extend t (CurrentCode.fields True (isMatchFilter t f)),
               if isMatchFilter t f then oF @ [b] else oF)"
        using False cb r Some F
        by (simp add: step_def bindE_def Let_def b_def CodeTitle.extend_def CurrentCode.fields_def)
      moreover have "sim f (CodeTitle.extend t (CurrentCode.fields True True), oU @ [b])
          (CodeTitle.extend t (CurrentCode.fields True (isMatchFilter t f)),
               if isMatchFilter t f then oF @ [b] else oF)"
        unfolding sim_def using oF pb by (simp add: CodeTitle.extend_def CurrentCode.fields_def)
      ultimately show ?thesis by blast
    qed
  qed
qed

lemma loop_sim:
  "sim f stU stF \<Longrightarrow>
   \<exists>stU' stF'. loop None ls stU = Inr stU' \<and> loop f ls stF = Inr stF' \<and> sim f stU' stF'"
proof (induction ls arbitrary: stU stF)
  case Nil
  then show ?case by simp
next
  case (Cons l ls)
  from step_sim [OF Cons.prems, of l] obtain sU sF where
    s: "step None l stU = Inr sU" "step f l stF = Inr sF" and i: "sim f sU sF" by blast
  from Cons.IH [OF i] s show ?case by (simp add: bindE_def)
qed

lemma sim_init: "sim f (initialCode, []) (initialCode, [])"
  by (simp add: sim_def initialCode_def)

lemma getCodeBlocks_filter:
  "\<exists>all. getCodeBlocks pull (Lines ls) None = Inr all \<and>
         getCodeBlocks pull (Lines ls) f = Inr (filter (\<lambda>b. isMatchFilter (blockTitle b) f) all)"
proof -
  from loop_sim [OF sim_init, where f = f and ls = ls] obtain stU stF where
    "loop None ls (initialCode, []) = Inr stU" "loop f ls (initialCode, []) = Inr stF" "sim f stU stF"
    by blast
  then show ?thesis by (simp add: getCodeBlocks_def getLines_def bindE_def sim_def)
qed

lemma step_filter_eq:
  assumes "\<And>t. isMatchFilter t f = isMatchFilter t g"
  shows "step f l st = step g l st"
  unfolding step_def assms ..

lemma loop_filter_eq:
  assumes "\<And>t. isMatchFilter t f = isMatchFilter t g"
  shows "loop f ls st = loop g ls st"
proof (induction ls arbitrary: st)
  case Nil
  show ?case by simp
next
  case (Cons l ls)
  have "loop f ls = loop g ls" by (rule ext) (rule Cons.IH)
  then show ?case by (simp add: step_filter_eq [OF assms])
qed

lemma isMatchFilter_exact:
  "no_empty_field f \<Longrightarrow> isMatchFilter (blockTitle b) f = spec_filter_matches f b"
  by (auto simp: isMatchFilter_def spec_filter_matches_def no_empty_field_def blockTitle_def
           split: option.splits)

section \<open>What one iteration does to the output\<close>

lemma step_shape:
  assumes "step f l (cur, out) = Inr (cur', out')"
  shows "out' = out \<or>
         (out \<noteq> [] \<and> isCodeBlock cur \<and> isCollect cur \<and>
            (out' = butlast out @ [(last out)\<lparr>nextLine := Some l\<rparr>] \<or>
             out' = butlast out @ [(last out)\<lparr>bodyLines := bodyLines (last out) @ [l]\<rparr>])) \<or>
         (\<not> isCodeBlock cur \<and>
            (\<exists>t. extractFromCodeTitle (line_text l) = Inr (Some t) \<and> isMatchFilter t f \<and>
                 out' = out @ [\<lparr>filename = fileName t, lang = title_lang t, titleLine = l,
                                bodyLines = [], nextLine = None\<rparr>]))"
proof (cases "isCodeBlock cur")
  case True
  obtain body where body: "extractFromCodeBody (line_text l) (indent cur) = Inr body"
    using extractFromCodeBody_total by blast
  with True assms show ?thesis
    by (cases body; cases "isCollect cur"; cases "out = []")
       (auto simp: step_def bindE_def update_last_def)
next
  case False
  obtain r where r: "extractFromCodeTitle (line_text l) = Inr r"
    using extractFromCodeTitle_total by blast
  show ?thesis
  proof (cases r)
    case None
    with False r assms show ?thesis by (simp add: step_def bindE_def)
  next
    case (Some t)
    with False r assms show ?thesis
      by (cases "isMatchFilter t f")
         (auto simp: step_def bindE_def Let_def CodeTitle.extend_def CurrentCode.fields_def)
  qed
qed

lemma step_titles:
  assumes "step f l st = Inr st'"
  shows "map titleLine (snd st') = map titleLine (snd st) \<or>
         map titleLine (snd st') = map titleLine (snd st) @ [l]"
proof -
  obtain cur out cur' out' where s: "st = (cur, out)" "st' = (cur', out')"
    by (cases st, cases st')
  have "map titleLine (butlast out @ [g (last out)]) = map titleLine out"
    if "out \<noteq> []" "titleLine (g (last out)) = titleLine (last out)" for g
    using that by (metis (no_types, lifting) append_butlast_last_id list.simps(8,9) map_append)
  with step_shape [OF assms [unfolded s]] show ?thesis
    unfolding s by (elim disjE conjE exE) simp_all
qed

lemma step_prefix:
  assumes "step f l st = Inr st'"
  shows "prefix (butlast (snd st)) (snd st')"
proof -
  obtain cur out cur' out' where s: "st = (cur, out)" "st' = (cur', out')"
    by (cases st, cases st')
  have "prefix (butlast out) out" by (simp add: prefixeq_butlast)
  with step_shape [OF assms [unfolded s]] show ?thesis
    unfolding s by (elim disjE conjE exE) (auto intro: prefix_order.trans)
qed

lemma loop_titles:
  "loop f ls st = Inr st' \<Longrightarrow> subseq (map titleLine (snd st)) pre \<Longrightarrow>
   subseq (map titleLine (snd st')) (pre @ ls)"
proof (induction ls arbitrary: st pre)
  case Nil
  then show ?case by simp
next
  case (Cons l ls)
  from Cons.prems(1) obtain st1 where s: "step f l st = Inr st1" and r: "loop f ls st1 = Inr st'"
    by (auto simp: bindE_def split: sum.splits)
  from step_titles [OF s] Cons.prems(2) have "subseq (map titleLine (snd st1)) (pre @ [l])"
    by (auto simp: subseq_append' intro: list_emb_append_mono)
  from Cons.IH [OF r this] show ?case by simp
qed

lemma in_set_last_cases: "xs \<noteq> [] \<Longrightarrow> x \<in> set xs \<Longrightarrow> x \<in> set (butlast xs) \<or> x = last xs"
  by (cases xs rule: rev_cases) auto

lemma getCodeBlocks_loop:
  "getCodeBlocks pull (Lines ls) f = bindE (loop f ls (initialCode, [])) (\<lambda>st. Inr (snd st))"
  by (simp add: getCodeBlocks_def getLines_def bindE_def)

lemma getCodeBlocks_inv:
  "\<exists>st. loop f ls (initialCode, []) = Inr st \<and> getCodeBlocks pull (Lines ls) f = Inr (snd st) \<and> inv ls st"
proof -
  from loop_inv [OF inv_init, where f = f and ls = ls] obtain st where
    "loop f ls (initialCode, []) = Inr st" "inv ls st" by auto
  then show ?thesis by (auto simp: getCodeBlocks_loop bindE_def)
qed

lemma output_blocks:
  assumes "getCodeBlocks pull (Lines ls) f = Inr bs" and "b \<in> set bs"
  shows "closed_in ls b \<or> open_in ls b"
proof -
  from getCodeBlocks_inv [of f ls pull] assms(1) obtain st where
    i: "inv ls st" and bs: "bs = snd st" by auto
  show ?thesis
  proof (cases "isCodeBlock (fst st) \<and> isCollect (fst st)")
    case True
    with i have "bs \<noteq> []" "list_all (closed_in ls) (butlast bs)" "open_in ls (last bs)"
      unfolding bs by (simp_all add: inv_def Let_def)
    with in_set_last_cases [OF this(1) assms(2)] show ?thesis by (auto simp: list_all_iff)
  next
    case False
    with i have "list_all (closed_in ls) bs" unfolding bs by (auto simp: inv_def Let_def)
    with assms(2) show ?thesis by (auto simp: list_all_iff)
  qed
qed

lemma loop_no_titles:
  "list_all (\<lambda>l. extractFromCodeTitle (line_text l) = Inr None) ls \<Longrightarrow> \<not> isCodeBlock (fst st) \<Longrightarrow>
   \<exists>c. loop f ls st = Inr (c, snd st) \<and> \<not> isCodeBlock c"
proof (induction ls arbitrary: st)
  case Nil
  then show ?case by (cases st) simp
next
  case (Cons l ls)
  obtain cur out where st: "st = (cur, out)" by (cases st)
  from Cons.prems st have s: "step f l st = Inr (cur\<lparr>isCodeBlock := False\<rparr>, out)"
    by (simp add: step_def bindE_def)
  from Cons.prems(1) have "list_all (\<lambda>l. extractFromCodeTitle (line_text l) = Inr None) ls" by simp
  from Cons.IH [OF this, of "(cur\<lparr>isCodeBlock := False\<rparr>, out)"] s st show ?case
    by (simp add: bindE_def)
qed

lemma extension_empty:
  "fn \<noteq> [] \<Longrightarrow> extension fn = [] \<longleftrightarrow> last fn = of_char CHR ''.''"
  unfolding extension_def by (cases fn rule: rev_cases) auto

lemma extension_split:
  assumes "of_char CHR ''.'' \<in> set fn"
  shows "(\<exists>stem. fn = stem @ of_char CHR ''.'' # extension fn) \<and> of_char CHR ''.'' \<notin> set (extension fn)"
proof -
  define d :: codeunit where "d = of_char CHR ''.''"
  from assms obtain ys zs where fn: "fn = ys @ d # zs" and zs: "d \<notin> set zs"
    unfolding d_def by (auto dest: split_list_last)
  have "takeWhile (\<lambda>c. c \<noteq> d) (rev zs) = rev zs"
    using zs by (auto simp: takeWhile_eq_all_conv)
  moreover have "rev fn = rev zs @ d # rev ys" by (simp add: fn)
  ultimately have "takeWhile (\<lambda>c. c \<noteq> d) (rev fn) = rev zs"
    by (simp only: takeWhile_tail simp_thms)
  then have "extension fn = zs" unfolding extension_def d_def [symmetric] by simp
  with fn zs show ?thesis unfolding d_def by auto
qed

section \<open>The properties of the specification\<close>

text \<open>
  C1.  The claim: a line that ends an open block is examined again as a title in the same
  pass, so that \<open>["code:d.py", "code:e.py", "  z"]\<close> with the filter \<open>{lang: "py"}\<close> gives two
  blocks.  The loop leaves the iteration with \<open>continue\<close> once it has stored the line as
  \<open>nextLine\<close>: whatever the line that ends a block is, the iteration that reads it opens no
  block and leaves the loop outside any block.  On the input of the claim, although
  \<open>code:e.py\<close> is a title that the filter accepts, one block comes back, and \<open>"  z"\<close> is read
  outside any block.
\<close>

theorem consecutive_titles_second_block_lost:
  "(isCodeBlock cur \<and> extractFromCodeBody (line_text line) (indent cur) = Inr None \<and>
    step f line (cur, out) = Inr (cur', out') \<longrightarrow>
      \<not> isCodeBlock cur' \<and> length out' = length out) \<and>
   getCodeBlocks no_pull (Lines scenario4) (Some py_filter) =
     Inr [\<lparr>filename = js ''d.py'', lang = js ''py'', titleLine = mkLine ''1'' ''code:d.py'',
           bodyLines = [], nextLine = Some (mkLine ''2'' ''code:e.py'')\<rparr>] \<and>
   extractFromCodeTitle (js ''code:e.py'') =
     Inr (Some \<lparr>fileName = js ''e.py'', title_lang = js ''py'', indent = 0\<rparr>) \<and>
   isMatchFilter \<lparr>fileName = js ''e.py'', title_lang = js ''py'', indent = 0\<rparr> (Some py_filter)"
proof -
  have "\<not> isCodeBlock cur' \<and> length out' = length out"
    if "isCodeBlock cur" "extractFromCodeBody (line_text line) (indent cur) = Inr None"
      "step f line (cur, out) = Inr (cur', out')"
    using that
    by (cases "isCollect cur"; cases "out = []")
       (auto simp: step_def bindE_def update_last_def)
  moreover have "getCodeBlocks no_pull (Lines scenario4) (Some py_filter) =
     Inr [\<lparr>filename = js ''d.py'', lang = js ''py'', titleLine = mkLine ''1'' ''code:d.py'',
           bodyLines = [], nextLine = Some (mkLine ''2'' ''code:e.py'')\<rparr>]" by code_simp
  moreover have "extractFromCodeTitle (js ''code:e.py'') =
     Inr (Some \<lparr>fileName = js ''e.py'', title_lang = js ''py'', indent = 0\<rparr>)" by code_simp
  moreover have "isMatchFilter \<lparr>fileName = js ''e.py'', title_lang = js ''py'', indent = 0\<rparr>
     (Some py_filter)" by code_simp
  ultimately show ?thesis by blast
qed

theorem consecutive_titles_second_block_lost_witness:
  "isCodeBlock d_code \<and>
   extractFromCodeBody (line_text (mkLine ''2'' ''code:e.py'')) (indent d_code) = Inr None \<and>
   step (Some py_filter) (mkLine ''2'' ''code:e.py'') (d_code, [d_block]) =
     Inr (d_code\<lparr>isCodeBlock := False\<rparr>, [d_block\<lparr>nextLine := Some (mkLine ''2'' ''code:e.py'')\<rparr>]) \<and>
   \<not> isCodeBlock (d_code\<lparr>isCodeBlock := False\<rparr>) \<and>
   length [d_block\<lparr>nextLine := Some (mkLine ''2'' ''code:e.py'')\<rparr>] = length [d_block]"
proof -
  have a: "isCodeBlock d_code" by code_simp
  have b: "extractFromCodeBody (line_text (mkLine ''2'' ''code:e.py'')) (indent d_code) = Inr None"
    by code_simp
  have c: "step (Some py_filter) (mkLine ''2'' ''code:e.py'') (d_code, [d_block]) =
     Inr (d_code\<lparr>isCodeBlock := False\<rparr>, [d_block\<lparr>nextLine := Some (mkLine ''2'' ''code:e.py'')\<rparr>])"
    by code_simp
  from consecutive_titles_second_block_lost [of d_code "mkLine ''2'' ''code:e.py''"
      "Some py_filter" "[d_block]" "d_code\<lparr>isCodeBlock := False\<rparr>"
      "[d_block\<lparr>nextLine := Some (mkLine ''2'' ''code:e.py'')\<rparr>]"] a b c
  show ?thesis by blast
qed

text \<open>
  C2.  The claim: the language of a title with a parenthesised tag is the text inside the
  parentheses, \<open>js\<close> for \<open>"  code:b(js)"\<close>.  The function assigns the whole of group 3:
  for every title with a tag the language begins with \<open>(\<close> and ends with \<open>)\<close>, and the block
  of the claim has the language \<open>(js)\<close>.
\<close>

theorem tagged_language_keeps_parentheses:
  "(match rx_title 3 lineText = Some matched \<and> matched ! 3 = Some tag \<longrightarrow>
      (\<exists>g2 inner.
         matched ! 2 = Some g2 \<and> inner \<noteq> [] \<and>
         tag = of_char CHR ''('' # inner @ [of_char CHR '')''] \<and>
         extractFromCodeTitle lineText =
           Inr (Some \<lparr>fileName = trim g2, title_lang = tag, indent = indentation lineText\<rparr>))) \<and>
   extractFromCodeTitle (js ''  code:b(js)'') =
     Inr (Some \<lparr>fileName = js ''b'', title_lang = js ''(js)'', indent = 2\<rparr>) \<and>
   getCodeBlocks no_pull (Lines scenario2) None =
     Inr [\<lparr>filename = js ''b'', lang = js ''(js)'', titleLine = mkLine ''1'' ''  code:b(js)'',
           bodyLines = [mkLine ''2'' ''    x=1''], nextLine = Some (mkLine ''3'' ''  y'')\<rparr>]"
proof -
  have "\<exists>g2 inner.
         matched ! 2 = Some g2 \<and> inner \<noteq> [] \<and>
         tag = of_char CHR ''('' # inner @ [of_char CHR '')''] \<and>
         extractFromCodeTitle lineText =
           Inr (Some \<lparr>fileName = trim g2, title_lang = tag, indent = indentation lineText\<rparr>)"
    if "match rx_title 3 lineText = Some matched" "matched ! 3 = Some tag"
  proof (cases lineText rule: extractFromCodeTitle_cases)
    case none
    with that show ?thesis by simp
  next
    case (plain g2)
    with that show ?thesis by auto
  next
    case (tagged g2 g3 inner)
    with that have "matched ! 2 = Some g2" "tag = g3" by auto
    with tagged show ?thesis by blast
  qed
  moreover have "extractFromCodeTitle (js ''  code:b(js)'') =
     Inr (Some \<lparr>fileName = js ''b'', title_lang = js ''(js)'', indent = 2\<rparr>)" by code_simp
  moreover have "getCodeBlocks no_pull (Lines scenario2) None =
     Inr [\<lparr>filename = js ''b'', lang = js ''(js)'', titleLine = mkLine ''1'' ''  code:b(js)'',
           bodyLines = [mkLine ''2'' ''    x=1''], nextLine = Some (mkLine ''3'' ''  y'')\<rparr>]"
    by code_simp
  ultimately show ?thesis by blast
qed

theorem tagged_language_keeps_parentheses_witness:
  "match rx_title 3 (js ''  code:b(js)'') =
     Some [Some (js ''  code:b(js)''), Some (js ''  ''), Some (js ''b''), Some (js ''(js)'')] \<and>
   [Some (js ''  code:b(js)''), Some (js ''  ''), Some (js ''b''), Some (js ''(js)'')] ! 3 =
     Some (js ''(js)'') \<and>
   (\<exists>g2 inner.
      [Some (js ''  code:b(js)''), Some (js ''  ''), Some (js ''b''), Some (js ''(js)'')] ! 2 = Some g2 \<and>
      inner \<noteq> [] \<and> js ''(js)'' = of_char CHR ''('' # inner @ [of_char CHR '')''] \<and>
      extractFromCodeTitle (js ''  code:b(js)'') =
        Inr (Some \<lparr>fileName = trim g2, title_lang = js ''(js)'',
                   indent = indentation (js ''  code:b(js)'')\<rparr>))"
proof -
  have a: "match rx_title 3 (js ''  code:b(js)'') =
     Some [Some (js ''  code:b(js)''), Some (js ''  ''), Some (js ''b''), Some (js ''(js)'')]"
    by code_simp
  have b: "[Some (js ''  code:b(js)''), Some (js ''  ''), Some (js ''b''), Some (js ''(js)'')] ! 3 =
     Some (js ''(js)'')" by simp
  from tagged_language_keeps_parentheses [of "js ''  code:b(js)''"
      "[Some (js ''  code:b(js)''), Some (js ''  ''), Some (js ''b''), Some (js ''(js)'')]"
      "js ''(js)''"] a b
  show ?thesis by blast
qed

text \<open>
  C3, as claimed: whenever the leading whitespace is longer than \<open>T\<close>, the helper returns a
  body text.  A line of two spaces, \<open>a\<close>, a carriage return and \<open>b\<close> has two characters
  of leading whitespace, more than \<open>T = 0\<close>; the pattern \<open>/^(\s*)(.*)$/\<close> does not match it,
  since \<open>.\<close> stops at the line terminator, and the helper returns no body text.
\<close>

theorem line_terminator_is_no_body_counterexample:
  "(0::nat) < indentation (js ''  a'' @ [0x000D] @ js ''b'') \<and>
   extractFromCodeBody (js ''  a'' @ [0x000D] @ js ''b'') 0 = Inr None"
  by code_simp

text \<open>
  C3, amended.  For every line text and every title indentation \<open>T\<close>, with \<open>I\<close> the length of
  the leading whitespace: the helper never throws; it returns no body text exactly when
  \<open>I \<le> T\<close> or a line terminator follows the leading whitespace; otherwise it returns a
  body text, which is a trailing part of the leading whitespace followed by the rest of the
  line.  How many characters of the indentation the text keeps is not stated.
\<close>

theorem extractFromCodeBody_classifies:
  "(\<exists>r. extractFromCodeBody lineText titleIndent = Inr r) \<and>
   (extractFromCodeBody lineText titleIndent = Inr None \<longleftrightarrow>
      indentation lineText \<le> titleIndent \<or>
      list_ex isLineTerminator (dropWhile isSpace lineText)) \<and>
   (titleIndent < indentation lineText \<and>
    \<not> list_ex isLineTerminator (dropWhile isSpace lineText) \<longrightarrow>
      (\<exists>ws. suffix ws (takeWhile isSpace lineText) \<and>
            extractFromCodeBody lineText titleIndent =
              Inr (Some (ws @ dropWhile isSpace lineText))))"
proof -
  have "suffix (drop n (takeWhile isSpace lineText)) (takeWhile isSpace lineText)" for n
    by (rule suffix_drop)
  then show ?thesis
    by (auto simp: extractFromCodeBody_eq indentation_def list_ex_iff)
qed

theorem extractFromCodeBody_classifies_witness:
  "(1::nat) < indentation (js ''    x'') \<and>
   \<not> list_ex isLineTerminator (dropWhile isSpace (js ''    x'')) \<and>
   (\<exists>ws. suffix ws (takeWhile isSpace (js ''    x'')) \<and>
         extractFromCodeBody (js ''    x'') 1 = Inr (Some (ws @ dropWhile isSpace (js ''    x''))))"
proof -
  have a: "(1::nat) < indentation (js ''    x'')" by code_simp
  have b: "\<not> list_ex isLineTerminator (dropWhile isSpace (js ''    x''))" by code_simp
  from extractFromCodeBody_classifies [of "js ''    x''" 1] a b show ?thesis by blast
qed

text \<open>
  The indentation that the text keeps is what \<open>indent.slice(indent.length - titleIndent)\<close>
  leaves, the last \<open>T\<close> characters of the leading whitespace: none of it at \<open>T = 0\<close>.
\<close>

lemma extractFromCodeBody_slice_example:
  "extractFromCodeBody (js ''    nested'') 0 = Inr (Some (js ''nested''))"
  by code_simp

text \<open>
  C4, as claimed: the entries of \<open>bodyLines\<close> carry the computed body text, so that scenario 1
  gives the texts \<open>hello\<close> and \<open>world\<close>.  The loop pushes the line itself; the texts are
  \<open>"  hello"\<close> and \<open>"  world"\<close>.
\<close>

theorem bodyLines_computed_text_counterexample:
  "getCodeBlocks no_pull (Lines scenario1) None = Inr [block1] \<and>
   map line_text (bodyLines block1) \<noteq> [js ''hello'', js ''world'']"
  by code_simp

text \<open>
  C4, amended.  For every collected block, \<open>bodyLines\<close> holds the lines of the input
  themselves, unchanged, in the order and place in which they follow the title line; in
  particular scenario 1 without a filter gives exactly one block, with the file name
  \<open>a.txt\<close>, the language \<open>txt\<close>, body lines of the texts \<open>"  hello"\<close> and \<open>"  world"\<close>, and
  the line \<open>done\<close> as \<open>nextLine\<close>.
\<close>

theorem bodyLines_are_input_lines:
  "(getCodeBlocks pull (Lines ls) f = Inr bs \<and> b \<in> set bs \<longrightarrow>
      (\<exists>pre rest. ls = pre @ titleLine b # bodyLines b @ rest)) \<and>
   getCodeBlocks no_pull (Lines scenario1) None = Inr [block1] \<and>
   filename block1 = js ''a.txt'' \<and> lang block1 = js ''txt'' \<and>
   map line_text (bodyLines block1) = [js ''  hello'', js ''  world''] \<and>
   nextLine block1 = Some (mkLine ''4'' ''done'')"
proof -
  have "\<exists>pre rest. ls = pre @ titleLine b # bodyLines b @ rest"
    if "getCodeBlocks pull (Lines ls) f = Inr bs" "b \<in> set bs"
    using output_blocks [OF that] unfolding closed_in_def open_in_def by (metis append_Nil2)
  moreover have "getCodeBlocks no_pull (Lines scenario1) None = Inr [block1]" by code_simp
  moreover have "filename block1 = js ''a.txt''" "lang block1 = js ''txt''"
    "map line_text (bodyLines block1) = [js ''  hello'', js ''  world'']"
    "nextLine block1 = Some (mkLine ''4'' ''done'')" by code_simp+
  ultimately show ?thesis by blast
qed

theorem bodyLines_are_input_lines_witness:
  "getCodeBlocks no_pull (Lines scenario1) None = Inr [block1] \<and> block1 \<in> set [block1] \<and>
   (\<exists>pre rest. scenario1 = pre @ titleLine block1 # bodyLines block1 @ rest)"
proof -
  have h: "getCodeBlocks no_pull (Lines scenario1) None = Inr [block1]" by code_simp
  from bodyLines_are_input_lines [of no_pull scenario1 None "[block1]" block1] h
  show ?thesis by simp
qed

text \<open>
  C5, as claimed: a file name that ends in a dot is rejected as a title.  The file name \<open>.\<close>
  ends in a dot and has no tag, and \<open>code:.\<close> is accepted, with the language \<open>.\<close>.
\<close>

theorem trailing_dot_rejected_counterexample:
  "match rx_title 3 (js ''code:.'') = Some [Some (js ''code:.''), Some [], Some (js ''.''), None] \<and>
   last (trim (js ''.'')) = of_char CHR ''.'' \<and>
   extractFromCodeTitle (js ''code:.'') =
     Inr (Some \<lparr>fileName = js ''.'', title_lang = js ''.'', indent = 0\<rparr>)"
  by code_simp

text \<open>
  C5, amended.  For every title line without a parenthesised tag, the pattern
  \<open>/.+\.(.*)$/\<close> sees a dot only after the first character of the file name: if the file
  name has no dot after its first character, the language is the whole file name (so \<open>.\<close>
  and \<open>.bashrc\<close> are their own language); otherwise, if the file name ends in a dot, the line
  is rejected as a title (it opens no block: \<open>["code:c.", "text"]\<close> gives no block);
  otherwise the language is what follows the last dot.  \<open>extension\<close> is the text after the
  last dot.
\<close>

theorem title_language_from_filename:
  assumes "match rx_title 3 lineText = Some matched" and "is_undefined matched 3"
  shows "\<exists>g2. matched ! 2 = Some g2 \<and>
           extractFromCodeTitle lineText =
             (if of_char CHR ''.'' \<notin> set (tl (trim g2))
              then Inr (Some \<lparr>fileName = trim g2, title_lang = trim g2,
                               indent = indentation lineText\<rparr>)
              else if last (trim g2) = of_char CHR ''.'' then Inr None
              else Inr (Some \<lparr>fileName = trim g2, title_lang = extension (trim g2),
                               indent = indentation lineText\<rparr>)) \<and>
           (of_char CHR ''.'' \<in> set (trim g2) \<longrightarrow>
              (\<exists>stem. trim g2 = stem @ of_char CHR ''.'' # extension (trim g2)) \<and>
              of_char CHR ''.'' \<notin> set (extension (trim g2))) \<and>
           getCodeBlocks no_pull (Lines scenario3) None = Inr []"
proof (cases lineText rule: extractFromCodeTitle_cases)
  case none
  with assms show ?thesis by simp
next
  case (tagged g2 g3 inner)
  with assms(1) have "matched ! 3 = Some g3" "length matched = 4" by auto
  with assms(2) show ?thesis by (simp add: is_undefined_def)
next
  case (plain g2)
  have e: "extension (trim g2) = [] \<longleftrightarrow> last (trim g2) = of_char CHR ''.''"
    if "of_char CHR ''.'' \<in> set (tl (trim g2))"
    using that by (intro extension_empty) auto
  have s: "getCodeBlocks no_pull (Lines scenario3) None = Inr []" by code_simp
  from plain(1) assms(1) have "matched ! 2 = Some g2" by auto
  moreover have "extractFromCodeTitle lineText =
             (if of_char CHR ''.'' \<notin> set (tl (trim g2))
              then Inr (Some \<lparr>fileName = trim g2, title_lang = trim g2,
                               indent = indentation lineText\<rparr>)
              else if last (trim g2) = of_char CHR ''.'' then Inr None
              else Inr (Some \<lparr>fileName = trim g2, title_lang = extension (trim g2),
                               indent = indentation lineText\<rparr>))"
    unfolding plain(2) using e by auto
  ultimately show ?thesis using extension_split [of "trim g2"] s by blast
qed

theorem title_language_from_filename_witness:
  "match rx_title 3 (js ''code:a.b.c'') =
     Some [Some (js ''code:a.b.c''), Some [], Some (js ''a.b.c''), None] \<and>
   is_undefined [Some (js ''code:a.b.c''), Some [], Some (js ''a.b.c''), None] 3 \<and>
   extractFromCodeTitle (js ''code:a.b.c'') =
     Inr (Some \<lparr>fileName = js ''a.b.c'', title_lang = js ''c'', indent = 0\<rparr>) \<and>
   js ''a.b.c'' = js ''a.b'' @ of_char CHR ''.'' # js ''c''"
proof -
  have h1: "match rx_title 3 (js ''code:a.b.c'') =
     Some [Some (js ''code:a.b.c''), Some [], Some (js ''a.b.c''), None]" by code_simp
  have h2: "is_undefined [Some (js ''code:a.b.c''), Some [], Some (js ''a.b.c''), None] 3"
    by code_simp
  have a: "trim (js ''a.b.c'') = js ''a.b.c''" by code_simp
  have b: "of_char CHR ''.'' \<in> set (tl (js ''a.b.c''))" by code_simp
  have c: "last (js ''a.b.c'') \<noteq> of_char CHR ''.''" by code_simp
  have d: "extension (js ''a.b.c'') = js ''c''" by code_simp
  have e: "indentation (js ''code:a.b.c'') = 0" by code_simp
  have f: "js ''a.b.c'' = js ''a.b'' @ of_char CHR ''.'' # js ''c''" by code_simp
  from title_language_from_filename [OF h1 h2] obtain g2 where
    g: "[Some (js ''code:a.b.c''), Some [], Some (js ''a.b.c''), None] ! 2 = Some g2"
    and x: "extractFromCodeTitle (js ''code:a.b.c'') =
             (if of_char CHR ''.'' \<notin> set (tl (trim g2))
              then Inr (Some \<lparr>fileName = trim g2, title_lang = trim g2,
                               indent = indentation (js ''code:a.b.c'')\<rparr>)
              else if last (trim g2) = of_char CHR ''.'' then Inr None
              else Inr (Some \<lparr>fileName = trim g2, title_lang = extension (trim g2),
                               indent = indentation (js ''code:a.b.c'')\<rparr>))"
    by blast
  from g have "g2 = js ''a.b.c''" by simp
  with x a b c d e have "extractFromCodeTitle (js ''code:a.b.c'') =
     Inr (Some \<lparr>fileName = js ''a.b.c'', title_lang = js ''c'', indent = 0\<rparr>)"
    by (simp only: if_True if_False not_True_eq_False not_False_eq_True simp_thms)
  with h1 h2 f show ?thesis by blast
qed

text \<open>
  C6.  For every input and filter, every block \<open>b\<close> that \<open>getCodeBlocks\<close> returns sits in the
  input as its title line, then its body lines, with no gap; every body line has more
  leading whitespace than the title line; the line after the body, if there is one, is not
  a body line of the block and is its \<open>nextLine\<close>; and if the input ends with the body,
  \<open>nextLine\<close> is absent.
\<close>

theorem emitted_block_invariant:
  assumes "getCodeBlocks pull (Lines ls) f = Inr bs" and "b \<in> set bs"
  shows "\<exists>pre rest.
           ls = pre @ titleLine b # bodyLines b @ rest \<and>
           list_all (\<lambda>l. indentation (line_text (titleLine b)) < indentation (line_text l))
             (bodyLines b) \<and>
           (case rest of
              [] \<Rightarrow> nextLine b = None
            | l # _ \<Rightarrow>
                nextLine b = Some l \<and>
                extractFromCodeBody (line_text l) (indentation (line_text (titleLine b))) = Inr None)"
proof -
  have body: "list_all (\<lambda>l. indentation (line_text (titleLine b)) < indentation (line_text l))
      (bodyLines b)" if "wf_block b"
    using that unfolding wf_block_def list_all_iff
    by (auto simp: extractFromCodeBody_eq indentation_def split: if_splits)
  from output_blocks [OF assms] show ?thesis
  proof
    assume "closed_in ls b"
    then obtain pre l rest where "wf_block b" "ls = pre @ titleLine b # bodyLines b @ l # rest"
      "nextLine b = Some l"
      "extractFromCodeBody (line_text l) (indentation (line_text (titleLine b))) = Inr None"
      unfolding closed_in_def by blast
    with body show ?thesis by (intro exI [of _ pre] exI [of _ "l # rest"]) simp
  next
    assume "open_in ls b"
    then obtain pre where "wf_block b" "ls = pre @ titleLine b # bodyLines b" "nextLine b = None"
      unfolding open_in_def by blast
    with body show ?thesis by (intro exI [of _ pre] exI [of _ "[]"]) simp
  qed
qed

theorem emitted_block_invariant_witness:
  "getCodeBlocks no_pull (Lines scenario1) None = Inr [block1] \<and> block1 \<in> set [block1] \<and>
   (\<exists>pre rest.
      scenario1 = pre @ titleLine block1 # bodyLines block1 @ rest \<and>
      list_all (\<lambda>l. indentation (line_text (titleLine block1)) < indentation (line_text l))
        (bodyLines block1) \<and>
      (case rest of
         [] \<Rightarrow> nextLine block1 = None
       | l # _ \<Rightarrow>
           nextLine block1 = Some l \<and>
           extractFromCodeBody (line_text l) (indentation (line_text (titleLine block1))) = Inr None))"
proof -
  have h: "getCodeBlocks no_pull (Lines scenario1) None = Inr [block1]" by code_simp
  have i: "block1 \<in> set [block1]" by simp
  from emitted_block_invariant [OF h i] h i show ?thesis by blast
qed

text \<open>
  C7, as claimed, with the exact match of the spec: a filter that matches exactly one of the
  blocks of the unfiltered run gives exactly that block.  The filter whose two fields are the
  empty string matches the first of the two blocks of \<open>["code: ", "x", "code:a.txt"]\<close>, whose
  file name and language are empty, and not the second; the run with it returns both.
\<close>

theorem exact_match_selectivity_counterexample:
  "getCodeBlocks no_pull (Lines empty_name_lines) None = Inr [empty_name_block, a_txt_block] \<and>
   spec_filter_matches (Some empty_filter) empty_name_block \<and>
   \<not> spec_filter_matches (Some empty_filter) a_txt_block \<and>
   getCodeBlocks no_pull (Lines empty_name_lines) (Some empty_filter) =
     Inr [empty_name_block, a_txt_block] \<and>
   [empty_name_block, a_txt_block] \<noteq> [empty_name_block]"
  by code_simp

text \<open>
  C7, amended.  Take the blocks that a run without a filter returns.  A run on the same lines
  with a filter returns those of them that \<open>isMatchFilter\<close> accepts, each equal to its entry
  of the unfiltered run; \<open>isMatchFilter\<close> accepts a block when each field of the filter is
  absent, or the empty string, or equal to the block's (\<open>blockTitle\<close> is the title data that a
  block keeps).  So for a filter none of whose fields is the empty string: if it matches
  none of the blocks, the output is empty, and if it matches exactly one, the output is
  exactly that block.
\<close>

theorem filter_selectivity:
  assumes "getCodeBlocks pull (Lines ls) None = Inr all"
  shows "getCodeBlocks pull (Lines ls) f = Inr (filter (\<lambda>b. isMatchFilter (blockTitle b) f) all) \<and>
         (isMatchFilter (blockTitle c) (Some \<lparr>filter_filename = n, filter_lang = l\<rparr>) \<longleftrightarrow>
            (n = None \<or> n = Some [] \<or> n = Some (filename c)) \<and>
            (l = None \<or> l = Some [] \<or> l = Some (lang c))) \<and>
         (no_empty_field f \<longrightarrow>
            getCodeBlocks pull (Lines ls) f = Inr (filter (spec_filter_matches f) all) \<and>
            (list_all (\<lambda>b. \<not> spec_filter_matches f b) all \<longrightarrow>
               getCodeBlocks pull (Lines ls) f = Inr []) \<and>
            (all = xs @ b # ys \<and> spec_filter_matches f b \<and>
             list_all (\<lambda>x. \<not> spec_filter_matches f x) (xs @ ys) \<longrightarrow>
               getCodeBlocks pull (Lines ls) f = Inr [b]))"
proof -
  let ?P = "\<lambda>b. isMatchFilter (blockTitle b) f"
  let ?Q = "spec_filter_matches f"
  from getCodeBlocks_filter [of pull ls f] assms
  have eq: "getCodeBlocks pull (Lines ls) f = Inr (filter ?P all)" by auto
  have ch: "isMatchFilter (blockTitle c) (Some \<lparr>filter_filename = n, filter_lang = l\<rparr>) \<longleftrightarrow>
            (n = None \<or> n = Some [] \<or> n = Some (filename c)) \<and>
            (l = None \<or> l = Some [] \<or> l = Some (lang c))"
    by (auto simp: isMatchFilter_def blockTitle_def split: option.splits)
  have ex: "getCodeBlocks pull (Lines ls) f = Inr (filter ?Q all) \<and>
            (list_all (\<lambda>b. \<not> ?Q b) all \<longrightarrow> getCodeBlocks pull (Lines ls) f = Inr []) \<and>
            (all = xs @ b # ys \<and> ?Q b \<and> list_all (\<lambda>x. \<not> ?Q x) (xs @ ys) \<longrightarrow>
               getCodeBlocks pull (Lines ls) f = Inr [b])"
    if ne: "no_empty_field f"
  proof -
    have "filter ?P all = filter ?Q all"
      by (rule filter_cong) (simp_all add: isMatchFilter_exact [OF ne])
    with eq have q: "getCodeBlocks pull (Lines ls) f = Inr (filter ?Q all)" by simp
    moreover have "filter ?Q all = []" if "list_all (\<lambda>b. \<not> ?Q b) all"
      using that by (simp add: list_all_iff filter_empty_conv)
    moreover have "filter ?Q all = [b]"
      if "all = xs @ b # ys \<and> ?Q b \<and> list_all (\<lambda>x. \<not> ?Q x) (xs @ ys)"
    proof -
      from that have "filter ?Q xs = []" "filter ?Q ys = []"
        by (simp_all add: list_all_iff filter_empty_conv)
      with that show ?thesis by simp
    qed
    ultimately show ?thesis by simp
  qed
  from eq ch ex show ?thesis by blast
qed

theorem filter_selectivity_witness:
  "getCodeBlocks no_pull (Lines scenario7) None = Inr [block7a, block7b] \<and>
   no_empty_field (Some py_filter) \<and> no_empty_field (Some rb_filter) \<and>
   [block7a, block7b] = [block7a] @ block7b # [] \<and>
   spec_filter_matches (Some py_filter) block7b \<and>
   list_all (\<lambda>x. \<not> spec_filter_matches (Some py_filter) x) ([block7a] @ []) \<and>
   getCodeBlocks no_pull (Lines scenario7) (Some py_filter) = Inr [block7b] \<and>
   list_all (\<lambda>x. \<not> spec_filter_matches (Some rb_filter) x) [block7a, block7b] \<and>
   getCodeBlocks no_pull (Lines scenario7) (Some rb_filter) = Inr []"
proof -
  have h: "getCodeBlocks no_pull (Lines scenario7) None = Inr [block7a, block7b]" by code_simp
  have n: "no_empty_field (Some py_filter)" "no_empty_field (Some rb_filter)" by code_simp+
  have a: "[block7a, block7b] = [block7a] @ block7b # []" by simp
  have b: "spec_filter_matches (Some py_filter) block7b" by code_simp
  have c: "list_all (\<lambda>x. \<not> spec_filter_matches (Some py_filter) x) ([block7a] @ [])"
    by code_simp
  have d: "list_all (\<lambda>x. \<not> spec_filter_matches (Some rb_filter) x) [block7a, block7b]"
    by code_simp
  from filter_selectivity [OF h, of "Some py_filter" _ _ _ "[block7a]" block7b "[]"] n(1) a b c
  have "getCodeBlocks no_pull (Lines scenario7) (Some py_filter) = Inr [block7b]" by blast
  moreover from filter_selectivity [OF h, of "Some rb_filter"] n(2) d
  have "getCodeBlocks no_pull (Lines scenario7) (Some rb_filter) = Inr []" by blast
  ultimately show ?thesis using h n a b c d by blast
qed

text \<open>
  C8, as claimed, with the exact match of the spec: when no block matches the filter the
  output is empty.  The filter whose file name is the empty string matches no block of
  \<open>["code:a.txt"]\<close>; the run with it returns the block.
\<close>

theorem no_exact_match_not_empty_counterexample:
  "getCodeBlocks no_pull (Lines [mkLine ''1'' ''code:a.txt'']) None = Inr [a_only_block] \<and>
   \<not> spec_filter_matches (Some empty_name_filter) a_only_block \<and>
   getCodeBlocks no_pull (Lines [mkLine ''1'' ''code:a.txt'']) (Some empty_name_filter) =
     Inr [a_only_block] \<and>
   [a_only_block] \<noteq> []"
  by code_simp

text \<open>
  C8, amended.  On lines that are given, \<open>getCodeBlocks\<close> never fails.  The empty input gives
  the empty output.  The title lines of the blocks returned are a subsequence of the input,
  in the order of the input.  If no line of the input is a title, no block is recognised;
  and if \<open>isMatchFilter\<close>, for which a field that is the empty string constrains nothing,
  accepts none of the blocks recognised (those of the run without a filter), the output is
  empty: so it is when a filter none of whose fields is the empty string matches none of
  them.
\<close>

theorem never_fails_and_keeps_order:
  "getCodeBlocks pull (Lines []) f = Inr [] \<and>
   (\<exists>all bs.
      getCodeBlocks pull (Lines ls) None = Inr all \<and>
      getCodeBlocks pull (Lines ls) f = Inr bs \<and>
      subseq (map titleLine bs) ls \<and>
      (list_all (\<lambda>l. extractFromCodeTitle (line_text l) = Inr None) ls \<longrightarrow> all = []) \<and>
      (list_all (\<lambda>b. \<not> isMatchFilter (blockTitle b) f) all \<longrightarrow> bs = []) \<and>
      (no_empty_field f \<and> list_all (\<lambda>b. \<not> spec_filter_matches f b) all \<longrightarrow> bs = []))"
proof -
  from getCodeBlocks_filter [of pull ls f] obtain all where
    u: "getCodeBlocks pull (Lines ls) None = Inr all"
    and v: "getCodeBlocks pull (Lines ls) f = Inr (filter (\<lambda>b. isMatchFilter (blockTitle b) f) all)"
    by blast
  define bs where "bs = filter (\<lambda>b. isMatchFilter (blockTitle b) f) all"
  from getCodeBlocks_inv [of f ls pull] v obtain st where
    st: "loop f ls (initialCode, []) = Inr st" and bs': "bs = snd st"
    unfolding bs_def by auto
  from loop_titles [OF st, of "[]"] have o: "subseq (map titleLine bs) ls"
    unfolding bs' by simp
  have n: "all = []" if "list_all (\<lambda>l. extractFromCodeTitle (line_text l) = Inr None) ls"
  proof -
    from loop_no_titles [OF that, of "(initialCode, [])" None]
    obtain c where "loop None ls (initialCode, []) = Inr (c, [])"
      by (auto simp: initialCode_def)
    with u show ?thesis by (simp add: getCodeBlocks_loop bindE_def)
  qed
  have e: "bs = []" if "list_all (\<lambda>b. \<not> isMatchFilter (blockTitle b) f) all"
    unfolding bs_def using that by (simp add: list_all_iff filter_empty_conv)
  have x: "bs = []" if "no_empty_field f \<and> list_all (\<lambda>b. \<not> spec_filter_matches f b) all"
    using that e by (simp add: isMatchFilter_exact)
  have "getCodeBlocks pull (Lines []) f = Inr []"
    by (simp add: getCodeBlocks_loop bindE_def)
  with u v o n e x show ?thesis unfolding bs_def by blast
qed

theorem never_fails_and_keeps_order_witness:
  "list_all (\<lambda>l. extractFromCodeTitle (line_text l) = Inr None) plain_lines \<and>
   getCodeBlocks no_pull (Lines plain_lines) None = Inr [] \<and>
   getCodeBlocks no_pull (Lines scenario1) None = Inr [block1] \<and>
   list_all (\<lambda>b. \<not> isMatchFilter (blockTitle b) (Some py_filter)) [block1] \<and>
   no_empty_field (Some py_filter) \<and>
   list_all (\<lambda>b. \<not> spec_filter_matches (Some py_filter) b) [block1] \<and>
   getCodeBlocks no_pull (Lines scenario1) (Some py_filter) = Inr []"
proof -
  have a: "list_all (\<lambda>l. extractFromCodeTitle (line_text l) = Inr None) plain_lines" by code_simp
  have b: "getCodeBlocks no_pull (Lines scenario1) None = Inr [block1]" by code_simp
  have c: "list_all (\<lambda>b. \<not> isMatchFilter (blockTitle b) (Some py_filter)) [block1]" by code_simp
  have d: "no_empty_field (Some py_filter)" by code_simp
  have e: "list_all (\<lambda>b. \<not> spec_filter_matches (Some py_filter) b) [block1]" by code_simp
  from never_fails_and_keeps_order [of no_pull None plain_lines] a
  have "getCodeBlocks no_pull (Lines plain_lines) None = Inr []" by auto
  moreover from never_fails_and_keeps_order [of no_pull "Some py_filter" scenario1] b d e
  have "getCodeBlocks no_pull (Lines scenario1) (Some py_filter) = Inr []" by auto
  ultimately show ?thesis using a b c d e by blast
qed

text \<open>
  C9.  A filter whose two fields are present and are the empty string gives, on every
  target, the result of a call without a filter.
\<close>

theorem empty_string_filter_is_no_filter:
  "getCodeBlocks pull target (Some \<lparr>filter_filename = Some (js ''''), filter_lang = Some (js '''')\<rparr>) =
   getCodeBlocks pull target None"
proof -
  have "isMatchFilter t (Some \<lparr>filter_filename = Some (js ''''), filter_lang = Some (js '''')\<rparr>) =
        isMatchFilter t None" for t
    by (simp add: isMatchFilter_def js_def)
  from loop_filter_eq [OF this]
  have "loop (Some \<lparr>filter_filename = Some (js ''''), filter_lang = Some (js '''')\<rparr>) ls st =
        loop None ls st" for ls and st :: "CurrentCode \<times> 'a Line_scheme TinyCodeBlock list" .
  then show ?thesis unfolding getCodeBlocks_def by simp
qed

text \<open>
  C10.  The loop never fails on any prefix of the input, and its next iteration does not
  fail either and leaves every block but the last as it was; outside a collected block it
  leaves the last block as it was too.  Whenever both flags are set, the output is not
  empty and its last block is the one that the current title line opened: that title
  line parses to the title data held in \<open>currentCode\<close>, every line read since is a body
  line of the block, its \<open>nextLine\<close> is still absent, and every earlier block is closed.
\<close>

theorem write_goes_to_open_block:
  "(\<exists>st. loop f pre (initialCode, []) = Inr st) \<and>
   (loop f pre (initialCode, []) = Inr (cur, out) \<longrightarrow>
      (\<exists>st'. step f line (cur, out) = Inr st' \<and> prefix (butlast out) (snd st') \<and>
             (\<not> (isCodeBlock cur \<and> isCollect cur) \<longrightarrow> prefix out (snd st'))) \<and>
      (isCodeBlock cur \<and> isCollect cur \<longrightarrow>
         out \<noteq> [] \<and> nextLine (last out) = None \<and>
         (\<exists>before. pre = before @ titleLine (last out) # bodyLines (last out)) \<and>
         extractFromCodeTitle (line_text (titleLine (last out))) =
           Inr (Some \<lparr>fileName = fileName cur, title_lang = title_lang cur, indent = indent cur\<rparr>) \<and>
         filename (last out) = fileName cur \<and> lang (last out) = title_lang cur \<and>
         list_all (\<lambda>b. nextLine b \<noteq> None) (butlast out)))"
proof -
  from loop_inv [OF inv_init, where f = f and ls = pre] obtain st where
    st: "loop f pre (initialCode, []) = Inr st" and i: "inv pre st" by auto
  have "(\<exists>st'. step f line (cur, out) = Inr st' \<and> prefix (butlast out) (snd st') \<and>
             (\<not> (isCodeBlock cur \<and> isCollect cur) \<longrightarrow> prefix out (snd st'))) \<and>
      (isCodeBlock cur \<and> isCollect cur \<longrightarrow>
         out \<noteq> [] \<and> nextLine (last out) = None \<and>
         (\<exists>before. pre = before @ titleLine (last out) # bodyLines (last out)) \<and>
         extractFromCodeTitle (line_text (titleLine (last out))) =
           Inr (Some \<lparr>fileName = fileName cur, title_lang = title_lang cur, indent = indent cur\<rparr>) \<and>
         filename (last out) = fileName cur \<and> lang (last out) = title_lang cur \<and>
         list_all (\<lambda>b. nextLine b \<noteq> None) (butlast out))"
    if "loop f pre (initialCode, []) = Inr (cur, out)"
  proof -
    from that st have s: "st = (cur, out)" by simp
    from step_inv [OF i, of f line] obtain st' where
      st': "step f line (cur, out) = Inr st'" unfolding s by blast
    obtain cur' out' where p: "st' = (cur', out')" by (cases st')
    from step_prefix [OF st'] have pr: "prefix (butlast out) (snd st')" by simp
    have w: "prefix out (snd st')" if "\<not> (isCodeBlock cur \<and> isCollect cur)"
      using step_shape [OF st' [unfolded p]] that unfolding p by auto
    have o: "out \<noteq> [] \<and> nextLine (last out) = None \<and>
         (\<exists>before. pre = before @ titleLine (last out) # bodyLines (last out)) \<and>
         extractFromCodeTitle (line_text (titleLine (last out))) =
           Inr (Some \<lparr>fileName = fileName cur, title_lang = title_lang cur, indent = indent cur\<rparr>) \<and>
         filename (last out) = fileName cur \<and> lang (last out) = title_lang cur \<and>
         list_all (\<lambda>b. nextLine b \<noteq> None) (butlast out)"
      if "isCodeBlock cur \<and> isCollect cur"
      using i that unfolding s inv_def open_in_def wf_block_def closed_in_def list_all_iff
      by auto
    from st' pr w o show ?thesis by blast
  qed
  with st show ?thesis by blast
qed

theorem write_goes_to_open_block_witness:
  "loop None [mkLine ''1'' ''code:a.txt'', mkLine ''2'' ''  hello''] (initialCode, []) =
     Inr (open_code, [open_block]) \<and>
   isCodeBlock open_code \<and> isCollect open_code \<and>
   (\<exists>st'. step None (mkLine ''3'' ''  world'') (open_code, [open_block]) = Inr st' \<and>
          prefix (butlast [open_block]) (snd st')) \<and>
   [open_block] \<noteq> [] \<and> nextLine (last [open_block]) = None \<and>
   (\<exists>before. [mkLine ''1'' ''code:a.txt'', mkLine ''2'' ''  hello''] =
      before @ titleLine (last [open_block]) # bodyLines (last [open_block])) \<and>
   extractFromCodeTitle (line_text (titleLine (last [open_block]))) =
     Inr (Some \<lparr>fileName = fileName open_code, title_lang = title_lang open_code,
                indent = indent open_code\<rparr>) \<and>
   loop None [] (initialCode, []) = Inr (initialCode, ([] :: Line TinyCodeBlock list)) \<and>
   \<not> (isCodeBlock initialCode \<and> isCollect initialCode) \<and>
   (\<exists>st'. step None (mkLine ''1'' ''code:a.txt'') (initialCode, []) = Inr st' \<and>
          prefix ([] :: Line TinyCodeBlock list) (snd st'))"
proof -
  have h: "loop None [mkLine ''1'' ''code:a.txt'', mkLine ''2'' ''  hello''] (initialCode, []) =
     Inr (open_code, [open_block])" by code_simp
  have c: "isCodeBlock open_code \<and> isCollect open_code" by code_simp
  have i: "loop None [] (initialCode, []) = Inr (initialCode, ([] :: Line TinyCodeBlock list))"
    by simp
  have n: "\<not> (isCodeBlock initialCode \<and> isCollect initialCode)" by code_simp
  from write_goes_to_open_block [of None "[mkLine ''1'' ''code:a.txt'', mkLine ''2'' ''  hello'']"
      open_code "[open_block]" "mkLine ''3'' ''  world''"] h c
  have "(\<exists>st'. step None (mkLine ''3'' ''  world'') (open_code, [open_block]) = Inr st' \<and>
          prefix (butlast [open_block]) (snd st')) \<and>
   [open_block] \<noteq> [] \<and> nextLine (last [open_block]) = None \<and>
   (\<exists>before. [mkLine ''1'' ''code:a.txt'', mkLine ''2'' ''  hello''] =
      before @ titleLine (last [open_block]) # bodyLines (last [open_block])) \<and>
   extractFromCodeTitle (line_text (titleLine (last [open_block]))) =
     Inr (Some \<lparr>fileName = fileName open_code, title_lang = title_lang open_code,
                indent = indent open_code\<rparr>)" by blast
  moreover from write_goes_to_open_block [of None "[]" initialCode "[] :: Line TinyCodeBlock list"
      "mkLine ''1'' ''code:a.txt''"] i n
  have "\<exists>st'. step None (mkLine ''1'' ''code:a.txt'') (initialCode, []) = Inr st' \<and>
          prefix ([] :: Line TinyCodeBlock list) (snd st')" by blast
  ultimately show ?thesis using h c i n by blast
qed

end
